theory Spec2Isabelle
  imports
    Complex_Main
    "HOL-Library.Product_Lexorder"
    "HOL-Library.Option_ord"
    "HOL-Library.Char_ord"
    "HOL-Library.List_Lexorder"
    "HOL-Library.Sublist"
    "HOL-Library.Multiset"
    "HOL-Library.AList"
begin

section \<open>Python values shared by the four engines\<close>

text \<open>
  The exceptions the modelled code can raise. \<open>ValueError\<close> is raised by
  \<open>algoritmo_dijkstra\<close> for an unknown source node, \<open>KeyError\<close> by a dictionary
  lookup of a missing key, \<open>IndexError\<close> by \<open>heapq.heappop\<close> on an empty list,
  \<open>NetworkXError\<close> by \<open>Graph.neighbors\<close> on a node that is not in the graph.
\<close>

datatype error = ValueError | KeyError | IndexError | NetworkXError

section \<open>The binary heap of Python's \<open>heapq\<close> module\<close>

text \<open>
  \<open>heapq\<close> keeps a min-heap inside a plain list. The algorithms push and pop through
  \<open>heappush\<close> and \<open>heappop\<close>; the order relation \<open>lt\<close> is the \<open>__lt__\<close> of the
  stored items (tuples compare lexicographically, \<open>NodoHuffman\<close> by frequency).
\<close>

function siftdown_loop :: "('a \<Rightarrow> 'a \<Rightarrow> bool) \<Rightarrow> 'a list \<Rightarrow> 'a \<Rightarrow> nat \<Rightarrow> nat \<Rightarrow> 'a list" where
  "siftdown_loop lt heap newitem startpos pos =
     (if pos > startpos then
        (let parentpos = (pos - 1) div 2;
             parent = heap ! parentpos
         in if lt newitem parent
            then siftdown_loop lt (heap[pos := parent]) newitem startpos parentpos
            else heap[pos := newitem])
      else heap[pos := newitem])"
  by pat_completeness auto
termination
  by (relation "measure (\<lambda>(lt, heap, newitem, startpos, pos). pos)") auto

declare siftdown_loop.simps [simp del]

definition siftdown :: "('a \<Rightarrow> 'a \<Rightarrow> bool) \<Rightarrow> 'a list \<Rightarrow> nat \<Rightarrow> nat \<Rightarrow> 'a list" where
  "siftdown lt heap startpos pos = siftdown_loop lt heap (heap ! pos) startpos pos"

function siftup_loop :: "('a \<Rightarrow> 'a \<Rightarrow> bool) \<Rightarrow> 'a list \<Rightarrow> nat \<Rightarrow> nat \<Rightarrow> 'a list \<times> nat" where
  "siftup_loop lt heap endpos pos =
     (let childpos = 2 * pos + 1
      in if childpos < endpos then
           (let rightpos = childpos + 1;
                childpos' = (if rightpos < endpos \<and> \<not> lt (heap ! childpos) (heap ! rightpos)
                             then rightpos else childpos)
            in siftup_loop lt (heap[pos := heap ! childpos']) endpos childpos')
         else (heap, pos))"
  by pat_completeness auto
termination
  by (relation "measure (\<lambda>(lt, heap, endpos, pos). endpos - pos)") (auto simp: Let_def)

declare siftup_loop.simps [simp del]

definition siftup :: "('a \<Rightarrow> 'a \<Rightarrow> bool) \<Rightarrow> 'a list \<Rightarrow> nat \<Rightarrow> 'a list" where
  "siftup lt heap pos =
     (let endpos = length heap;
          startpos = pos;
          newitem = heap ! pos;
          (heap', pos') = siftup_loop lt heap endpos pos
      in siftdown lt (heap'[pos' := newitem]) startpos pos')"

definition heappush :: "('a \<Rightarrow> 'a \<Rightarrow> bool) \<Rightarrow> 'a list \<Rightarrow> 'a \<Rightarrow> 'a list" where
  "heappush lt heap item = siftdown lt (heap @ [item]) 0 (length heap)"

definition heappop :: "('a \<Rightarrow> 'a \<Rightarrow> bool) \<Rightarrow> 'a list \<Rightarrow> error + ('a \<times> 'a list)" where
  "heappop lt heap =
     (if heap = [] then Inl IndexError
      else let lastelt = last heap;
               heap' = butlast heap
           in if heap' \<noteq> [] then Inr (hd heap', siftup lt (heap'[0 := lastelt]) 0)
              else Inr (lastelt, heap'))"

lemma length_siftdown_loop [simp]:
  "length (siftdown_loop lt heap newitem startpos pos) = length heap"
  by (induction lt heap newitem startpos pos rule: siftdown_loop.induct)
     (subst siftdown_loop.simps, simp add: Let_def)

lemma length_siftdown [simp]: "length (siftdown lt heap startpos pos) = length heap"
  by (simp add: siftdown_def)

lemma length_siftup_loop [simp]:
  "length (fst (siftup_loop lt heap endpos pos)) = length heap"
  by (induction lt heap endpos pos rule: siftup_loop.induct)
     (subst siftup_loop.simps, simp add: Let_def)

lemma length_siftup [simp]: "length (siftup lt heap pos) = length heap"
proof -
  obtain heap' pos' where loop: "siftup_loop lt heap (length heap) pos = (heap', pos')"
    by (cases "siftup_loop lt heap (length heap) pos")
  have "length (fst (siftup_loop lt heap (length heap) pos)) = length heap"
    by simp
  with loop have "length heap' = length heap"
    by simp
  with loop show ?thesis
    by (simp add: siftup_def Let_def)
qed

lemma length_heappush [simp]: "length (heappush lt heap item) = Suc (length heap)"
  by (simp add: heappush_def)

lemma length_heappop:
  "heappop lt heap = Inr (item, heap') \<Longrightarrow> Suc (length heap') = length heap"
  by (cases heap rule: rev_cases) (auto simp: heappop_def Let_def split: if_splits)

lemma heappop_Inl_iff: "heappop lt heap = Inl e \<longleftrightarrow> heap = [] \<and> e = IndexError"
  by (auto simp: heappop_def Let_def)

lemma mset_update_swap:
  assumes "i < length xs" "j < length xs" "i \<noteq> j"
  shows "mset (xs[i := xs ! j, j := x]) = mset (xs[i := x])"
proof -
  let ?h = "xs[i := x]"
  have "xs[i := xs ! j, j := x] = ?h[i := ?h ! j, j := ?h ! i]"
    using assms by simp
  moreover have "mset (?h[i := ?h ! j, j := ?h ! i]) = mset ?h"
    using assms by (intro mset_swap) simp_all
  ultimately show ?thesis by simp
qed

lemma mset_siftdown_loop:
  "pos < length heap \<Longrightarrow>
   mset (siftdown_loop lt heap newitem startpos pos) = mset (heap[pos := newitem])"
proof (induction lt heap newitem startpos pos rule: siftdown_loop.induct)
  case (1 lt heap newitem startpos pos)
  let ?pp = "(pos - 1) div 2"
  show ?case
  proof (cases "pos > startpos \<and> lt newitem (heap ! ?pp)")
    case True
    then have pp: "?pp < pos" by arith
    have "mset (siftdown_loop lt (heap[pos := heap ! ?pp]) newitem startpos ?pp)
          = mset (heap[pos := heap ! ?pp, ?pp := newitem])"
      using "1.IH"[OF _ refl refl] True pp "1.prems" by simp
    also have "\<dots> = mset (heap[pos := newitem])"
      using pp "1.prems" by (intro mset_update_swap) simp_all
    finally show ?thesis
      using True by (subst siftdown_loop.simps) (simp add: Let_def)
  next
    case False
    then show ?thesis
      by (subst siftdown_loop.simps) (auto simp: Let_def)
  qed
qed

lemma mset_siftdown: "pos < length heap \<Longrightarrow> mset (siftdown lt heap startpos pos) = mset heap"
  by (simp add: siftdown_def mset_siftdown_loop)

lemma mset_siftup_loop:
  "pos < length heap \<Longrightarrow> endpos \<le> length heap \<Longrightarrow> siftup_loop lt heap endpos pos = (heap', pos') \<Longrightarrow>
   pos' < length heap \<and> mset (heap'[pos' := x]) = mset (heap[pos := x])"
proof (induction lt heap endpos pos arbitrary: heap' pos' rule: siftup_loop.induct)
  case (1 lt heap endpos pos)
  let ?c = "2 * pos + 1"
  show ?case
  proof (cases "?c < endpos")
    case True
    define c' where "c' = (if ?c + 1 < endpos \<and> \<not> lt (heap ! ?c) (heap ! (?c + 1)) then ?c + 1 else ?c)"
    have c': "c' < endpos" "pos < c'" using True by (auto simp: c'_def)
    have rec: "siftup_loop lt (heap[pos := heap ! c']) endpos c' = (heap', pos')"
      using "1.prems"(3) True
      by (subst (asm) siftup_loop.simps) (auto simp: Let_def c'_def split: if_splits)
    note IH = "1.IH"[OF refl True refl refl, folded c'_def]
    have "pos' < length (heap[pos := heap ! c']) \<and>
          mset (heap'[pos' := x]) = mset (heap[pos := heap ! c', c' := x])"
      using IH[OF _ _ rec] c' "1.prems" by simp
    moreover have "mset (heap[pos := heap ! c', c' := x]) = mset (heap[pos := x])"
      using c' "1.prems" by (intro mset_update_swap) simp_all
    ultimately show ?thesis by simp
  next
    case False
    then have "siftup_loop lt heap endpos pos = (heap, pos)"
      by (subst siftup_loop.simps) (simp add: Let_def)
    with "1.prems" show ?thesis by simp
  qed
qed

lemma mset_siftup: "pos < length heap \<Longrightarrow> mset (siftup lt heap pos) = mset heap"
proof -
  assume pos: "pos < length heap"
  obtain heap' pos' where loop: "siftup_loop lt heap (length heap) pos = (heap', pos')"
    by (cases "siftup_loop lt heap (length heap) pos")
  from mset_siftup_loop[OF pos le_refl loop, of "heap ! pos"]
  have p: "pos' < length heap" and m: "mset (heap'[pos' := heap ! pos]) = mset heap"
    by simp_all
  have "length heap' = length heap"
    using length_siftup_loop[of lt heap "length heap" pos] loop by simp
  with p m loop show ?thesis
    by (simp add: siftup_def Let_def mset_siftdown)
qed

lemma mset_heappush: "mset (heappush lt heap item) = add_mset item (mset heap)"
  by (simp add: heappush_def mset_siftdown)

lemma mset_heappop:
  "heappop lt heap = Inr (item, heap') \<Longrightarrow> mset heap = add_mset item (mset heap')"
proof (cases heap rule: rev_cases)
  case Nil
  assume "heappop lt heap = Inr (item, heap')"
  with Nil show ?thesis by (simp add: heappop_def)
next
  case (snoc ys y)
  assume pop: "heappop lt heap = Inr (item, heap')"
  show ?thesis
  proof (cases ys)
    case Nil
    with snoc pop show ?thesis by (simp add: heappop_def)
  next
    case (Cons z zs)
    with snoc pop have "item = z" "heap' = siftup lt (y # zs) 0"
      by (auto simp: heappop_def Let_def)
    then have "mset heap' = add_mset y (mset zs)"
      by (simp add: mset_siftup)
    with snoc Cons \<open>item = z\<close> show ?thesis by simp
  qed
qed

lemma heappop_nonempty: "heap \<noteq> [] \<Longrightarrow> \<exists>item heap'. heappop lt heap = Inr (item, heap')"
  by (auto simp: heappop_def Let_def)

section \<open>Huffman coder\<close>

text \<open>
  \<open>NodoHuffman\<close> has four fields; \<open>caracter\<close> is \<open>None\<close> in an internal node, and
  the children are \<open>None\<close> until they are assigned.
\<close>

datatype 's NodoHuffman =
  NodoHuffman (caracter: "'s option") (frecuencia: nat)
              (izquierdo: "'s NodoHuffman option") (derecho: "'s NodoHuffman option")

definition nodo_lt :: "'s NodoHuffman \<Rightarrow> 's NodoHuffman \<Rightarrow> bool" where
  "nodo_lt a otro = (frecuencia a < frecuencia otro)"

text \<open>
  \<open>Counter(texto)\<close>: a dictionary from symbol to count whose items come in the order
  of first occurrence.
\<close>

fun incrementar :: "'s \<Rightarrow> ('s \<times> nat) list \<Rightarrow> ('s \<times> nat) list" where
  "incrementar c [] = [(c, 1)]"
| "incrementar c ((k, n) # kvs) =
     (if k = c then (k, n + 1) # kvs else (k, n) # incrementar c kvs)"

definition Counter :: "'s list \<Rightarrow> ('s \<times> nat) list" where
  "Counter texto = foldl (\<lambda>m c. incrementar c m) [] texto"

definition crear_heap :: "('s \<times> nat) list \<Rightarrow> 's NodoHuffman list" where
  "crear_heap items =
     foldl (\<lambda>heap (c, f). heappush nodo_lt heap (NodoHuffman (Some c) f None None)) [] items"

function construir_loop :: "'s NodoHuffman list \<Rightarrow> error + 's NodoHuffman list" where
  "construir_loop heap =
     (if length heap > 1 then
        (case heappop nodo_lt heap of
           Inl e \<Rightarrow> Inl e
         | Inr (izq, heap1) \<Rightarrow>
             (case heappop nodo_lt heap1 of
                Inl e \<Rightarrow> Inl e
              | Inr (der, heap2) \<Rightarrow>
                  (let padre = NodoHuffman None (frecuencia izq + frecuencia der)
                                 (Some izq) (Some der)
                   in construir_loop (heappush nodo_lt heap2 padre))))
      else Inr heap)"
  by pat_completeness auto
termination
proof (relation "measure length")
  show "wf (measure length)" by simp
next
  fix heap :: "'s NodoHuffman list" and x2 izq heap1 y der heap2 padre
  assume "heappop nodo_lt heap = Inr x2" "(izq, heap1) = x2"
    "heappop nodo_lt heap1 = Inr y" "(der, heap2) = y"
  then have "Suc (length heap1) = length heap" "Suc (length heap2) = length heap1"
    by (auto dest: length_heappop)
  then show "(heappush nodo_lt heap2 padre, heap) \<in> measure length"
    by simp
qed

declare construir_loop.simps [simp del]

definition construir_arbol_huffman :: "'s list \<Rightarrow> error + 's NodoHuffman option" where
  "construir_arbol_huffman texto =
     (if texto = [] then Inr None
      else (let frecuencias = Counter texto;
                heap = crear_heap frecuencias
            in case construir_loop heap of
                 Inl e \<Rightarrow> Inl e
               | Inr heap' \<Rightarrow>
                   (case heap' of [] \<Rightarrow> Inl IndexError | raiz # _ \<Rightarrow> Inr (Some raiz))))"

function generar_codigos ::
  "'s NodoHuffman option \<Rightarrow> string \<Rightarrow> ('s \<rightharpoonup> string) \<Rightarrow> ('s \<rightharpoonup> string)" where
  "generar_codigos None codigo_actual codigos = codigos"
| "generar_codigos (Some nodo) codigo_actual codigos =
     (case caracter nodo of
        Some c \<Rightarrow> codigos(c \<mapsto> (if codigo_actual \<noteq> [] then codigo_actual else ''0''))
      | None \<Rightarrow>
          (let codigos1 = generar_codigos (izquierdo nodo) (codigo_actual @ ''0'') codigos
           in generar_codigos (derecho nodo) (codigo_actual @ ''1'') codigos1))"
  by pat_completeness auto
termination
proof (relation "measure (\<lambda>(nodo, codigo_actual, codigos). size_option size nodo)")
  show "wf (measure (\<lambda>(nodo, codigo_actual, codigos). size_option size nodo))"
    by simp
next
  fix nodo :: "'s NodoHuffman" and codigo_actual :: string and codigos :: "'s \<rightharpoonup> string"
  show "((izquierdo nodo, codigo_actual @ ''0'', codigos), Some nodo, codigo_actual, codigos)
          \<in> measure (\<lambda>(nodo, codigo_actual, codigos). size_option size nodo)"
    by (cases nodo) simp
next
  fix nodo :: "'s NodoHuffman" and codigo_actual :: string
    and codigos codigos1 :: "'s \<rightharpoonup> string"
  show "((derecho nodo, codigo_actual @ ''1'', codigos1), Some nodo, codigo_actual, codigos)
          \<in> measure (\<lambda>(nodo, codigo_actual, codigos). size_option size nodo)"
    by (cases nodo) simp
qed

subsection \<open>Code tables of arbitrary trees\<close>

lemma nodo_induct [case_names None Some]:
  assumes "P None"
    and "\<And>nodo. (caracter nodo = None \<Longrightarrow> P (izquierdo nodo)) \<Longrightarrow>
                 (caracter nodo = None \<Longrightarrow> P (derecho nodo)) \<Longrightarrow> P (Some nodo)"
  shows "P n"
  using assms
  by (rule_tac generar_codigos.induct[where P = "\<lambda>n k m. P n" and ?a1.0 = "[]" and ?a2.0 = Map.empty]) auto

lemma generar_codigos_hoja:
  "caracter nodo = Some c \<Longrightarrow>
   generar_codigos (Some nodo) k m = m(c \<mapsto> (if k \<noteq> [] then k else ''0''))"
  by simp

lemma generar_codigos_interno:
  "caracter nodo = None \<Longrightarrow>
   generar_codigos (Some nodo) k m =
     generar_codigos (derecho nodo) (k @ ''1'') (generar_codigos (izquierdo nodo) (k @ ''0'') m)"
  by simp

lemma generar_codigos_add:
  "generar_codigos n k m = m ++ generar_codigos n k Map.empty"
proof (induction n arbitrary: k m rule: nodo_induct)
  case None
  show ?case by simp
next
  case (Some nodo)
  show ?case
  proof (cases "caracter nodo")
    case (Some c)
    then show ?thesis
      by (auto simp add: generar_codigos_hoja map_add_def fun_eq_iff simp del: generar_codigos.simps)
  next
    case None
    let ?I = "generar_codigos (izquierdo nodo) (k @ ''0'') Map.empty"
    let ?D = "generar_codigos (derecho nodo) (k @ ''1'') Map.empty"
    have "generar_codigos (Some nodo) k m = (m ++ ?I) ++ ?D"
      using Some.IH(1)[OF None, of "k @ ''0''" m]
            Some.IH(2)[OF None, of "k @ ''1''" "m ++ ?I"] None
      by (simp add: generar_codigos_interno del: generar_codigos.simps)
    moreover have "generar_codigos (Some nodo) k Map.empty = ?I ++ ?D"
      using Some.IH(2)[OF None, of "k @ ''1''" "?I"] None
      by (simp add: generar_codigos_interno del: generar_codigos.simps)
    ultimately show ?thesis by simp
  qed
qed

lemma generar_codigos_interno_add:
  "caracter nodo = None \<Longrightarrow>
   generar_codigos (Some nodo) k Map.empty =
     generar_codigos (izquierdo nodo) (k @ ''0'') Map.empty
       ++ generar_codigos (derecho nodo) (k @ ''1'') Map.empty"
  using generar_codigos_add[of "derecho nodo" "k @ ''1''"
          "generar_codigos (izquierdo nodo) (k @ ''0'') Map.empty"]
  by (simp add: generar_codigos_interno del: generar_codigos.simps)

lemma generar_codigos_extiende:
  "generar_codigos n k Map.empty c = Some code \<Longrightarrow> k \<noteq> [] \<Longrightarrow> prefix k code"
proof (induction n arbitrary: k rule: nodo_induct)
  case None
  then show ?case by simp
next
  case (Some nodo)
  show ?case
  proof (cases "caracter nodo")
    case (Some c')
    with Some.prems show ?thesis
      by (simp add: generar_codigos_hoja del: generar_codigos.simps split: if_splits)
  next
    case None
    from Some.prems(1) have
      "generar_codigos (derecho nodo) (k @ ''1'') Map.empty c = Some code \<or>
       generar_codigos (izquierdo nodo) (k @ ''0'') Map.empty c = Some code"
      by (auto simp: generar_codigos_interno_add[OF None] map_add_Some_iff
               simp del: generar_codigos.simps)
    then have "prefix (k @ ''1'') code \<or> prefix (k @ ''0'') code"
      using Some.IH(1)[OF None, of "k @ ''0''"] Some.IH(2)[OF None, of "k @ ''1''"] by auto
    then show ?thesis
      by (auto dest: append_prefixD)
  qed
qed

lemma ramas_incomparables:
  assumes "prefix (k @ ''0'') k1" "prefix (k @ ''1'') k2" "prefix k1 k2 \<or> prefix k2 k1"
  shows False
proof -
  from assms have "prefix (k @ ''0'') k2 \<and> prefix (k @ ''1'') k2
                 \<or> prefix (k @ ''0'') k1 \<and> prefix (k @ ''1'') k1"
    by (auto intro: prefix_order.trans)
  then have "prefix (k @ ''0'') (k @ ''1'') \<or> prefix (k @ ''1'') (k @ ''0'')"
    by (auto dest: prefix_same_cases)
  then show False by simp
qed

lemma generar_codigos_libre_de_prefijos:
  "generar_codigos n k Map.empty c1 = Some k1 \<Longrightarrow>
   generar_codigos n k Map.empty c2 = Some k2 \<Longrightarrow> prefix k1 k2 \<Longrightarrow> c1 = c2"
proof (induction n arbitrary: k rule: nodo_induct)
  case None
  then show ?case by simp
next
  case (Some nodo)
  show ?case
  proof (cases "caracter nodo")
    case (Some c')
    with Some.prems show ?thesis
      by (simp add: generar_codigos_hoja del: generar_codigos.simps split: if_splits)
  next
    case None
    let ?I = "generar_codigos (izquierdo nodo) (k @ ''0'') Map.empty"
    let ?D = "generar_codigos (derecho nodo) (k @ ''1'') Map.empty"
    have tab: "generar_codigos (Some nodo) k Map.empty = ?I ++ ?D"
      by (rule generar_codigos_interno_add[OF None])
    from Some.prems(1) tab have c1: "?D c1 = Some k1 \<or> ?I c1 = Some k1"
      by (auto simp: map_add_Some_iff)
    from Some.prems(2) tab have c2: "?D c2 = Some k2 \<or> ?I c2 = Some k2"
      by (auto simp: map_add_Some_iff)
    have ext: "\<And>c code. ?I c = Some code \<Longrightarrow> prefix (k @ ''0'') code"
              "\<And>c code. ?D c = Some code \<Longrightarrow> prefix (k @ ''1'') code"
      by (auto dest: generar_codigos_extiende)
    from c1 c2 show ?thesis
    proof (elim disjE)
      assume "?D c1 = Some k1" "?D c2 = Some k2"
      then show ?thesis using Some.IH(2)[OF None] Some.prems(3) by blast
    next
      assume "?I c1 = Some k1" "?I c2 = Some k2"
      then show ?thesis using Some.IH(1)[OF None] Some.prems(3) by blast
    next
      assume "?D c1 = Some k1" "?I c2 = Some k2"
      then show ?thesis
        using ext ramas_incomparables[of k k2 k1] Some.prems(3) by blast
    next
      assume "?I c1 = Some k1" "?D c2 = Some k2"
      then show ?thesis
        using ext ramas_incomparables[of k k1 k2] Some.prems(3) by blast
    qed
  qed
qed

lemma dom_generar_codigos:
  "dom (generar_codigos n k Map.empty) = dom (generar_codigos n k' Map.empty)"
proof (induction n arbitrary: k k' rule: nodo_induct)
  case None
  show ?case by simp
next
  case (Some nodo)
  show ?case
  proof (cases "caracter nodo")
    case (Some c)
    then show ?thesis
      by (auto simp add: generar_codigos_hoja dom_def simp del: generar_codigos.simps)
  next
    case None
    show ?thesis
      using Some.IH(1)[OF None, of "k @ ''0''" "k' @ ''0''"]
            Some.IH(2)[OF None, of "k @ ''1''" "k' @ ''1''"]
      by (simp add: generar_codigos_interno_add[OF None] del: generar_codigos.simps)
  qed
qed

definition simbolos :: "'s NodoHuffman \<Rightarrow> 's set" where
  "simbolos nodo = dom (generar_codigos (Some nodo) [] Map.empty)"

lemma simbolos_hoja [simp]: "simbolos (NodoHuffman (Some c) f l r) = {c}"
  by (simp add: simbolos_def)

lemma simbolos_interno [simp]:
  "simbolos (NodoHuffman None f (Some a) (Some b)) = simbolos a \<union> simbolos b"
proof -
  let ?n = "NodoHuffman None f (Some a) (Some b)"
  have "simbolos ?n = dom (generar_codigos (Some a) ''0'' Map.empty)
                    \<union> dom (generar_codigos (Some b) ''1'' Map.empty)"
    unfolding simbolos_def
    by (subst generar_codigos_interno_add) auto
  then show ?thesis
    unfolding simbolos_def
    using dom_generar_codigos[of "Some a" "''0''" "[]"] dom_generar_codigos[of "Some b" "''1''" "[]"]
    by simp
qed

subsection \<open>Frequencies and the initial heap\<close>

lemma claves_incrementar: "fst ` set (incrementar c m) = insert c (fst ` set m)"
  by (induction c m rule: incrementar.induct) auto

lemma claves_foldl_incrementar:
  "fst ` set (foldl (\<lambda>m c. incrementar c m) m0 texto) = fst ` set m0 \<union> set texto"
  by (induction texto arbitrary: m0) (auto simp: claves_incrementar)

lemma claves_Counter: "fst ` set (Counter texto) = set texto"
  by (simp add: Counter_def claves_foldl_incrementar)

lemma mset_foldl_heappush:
  "mset (foldl (\<lambda>heap (c, f). heappush nodo_lt heap (NodoHuffman (Some c) f None None)) h items)
   = mset h + mset (map (\<lambda>(c, f). NodoHuffman (Some c) f None None) items)"
  by (induction items arbitrary: h) (auto simp: mset_heappush)

lemma set_crear_heap:
  "set (crear_heap items) = (\<lambda>(c, f). NodoHuffman (Some c) f None None) ` set items"
proof -
  have "set_mset (mset (crear_heap items))
        = set_mset (mset (map (\<lambda>(c, f). NodoHuffman (Some c) f None None) items))"
    unfolding crear_heap_def by (simp add: mset_foldl_heappush)
  then show ?thesis by simp
qed

lemma simbolos_crear_heap: "\<Union> (simbolos ` set (crear_heap items)) = fst ` set items"
  by (auto simp: set_crear_heap intro: rev_image_eqI)

lemma crear_heap_no_vacio: "items \<noteq> [] \<Longrightarrow> crear_heap items \<noteq> []"
  using set_crear_heap[of items] by (cases items) auto

subsection \<open>The construction loop\<close>

lemma set_heappop:
  "heappop lt heap = Inr (item, heap') \<Longrightarrow> set heap = insert item (set heap')"
  by (drule mset_heappop, drule arg_cong[where f = set_mset]) simp

lemma set_heappush: "set (heappush lt heap item) = insert item (set heap)"
  using arg_cong[OF mset_heappush[of lt heap item], where f = set_mset] by simp

lemma construir_loop_ok:
  "heap \<noteq> [] \<Longrightarrow>
   \<exists>raiz. construir_loop heap = Inr [raiz] \<and> simbolos raiz = \<Union> (simbolos ` set heap)"
proof (induction heap rule: construir_loop.induct)
  case (1 heap)
  show ?case
  proof (cases "length heap > 1")
    case True
    obtain izq heap1 where pop1: "heappop nodo_lt heap = Inr (izq, heap1)"
      using heappop_nonempty[OF "1.prems"] by blast
    have len1: "Suc (length heap1) = length heap"
      by (rule length_heappop[OF pop1])
    with True have "heap1 \<noteq> []" by auto
    then obtain der heap2 where pop2: "heappop nodo_lt heap1 = Inr (der, heap2)"
      using heappop_nonempty by blast
    define padre where
      "padre = NodoHuffman None (frecuencia izq + frecuencia der) (Some izq) (Some der)"
    let ?heap3 = "heappush nodo_lt heap2 padre"
    have "length ?heap3 = Suc (length heap2)"
      by simp
    then have ne: "?heap3 \<noteq> []"
      by (metis length_0_conv nat.distinct(1))
    have step: "construir_loop heap = construir_loop ?heap3"
      using True pop1 pop2
      by (subst construir_loop.simps) (simp add: padre_def)
    from "1.IH"[OF True pop1 refl pop2 refl padre_def ne]
    obtain raiz where r: "construir_loop ?heap3 = Inr [raiz]"
        "simbolos raiz = \<Union> (simbolos ` set ?heap3)"
      by blast
    have "set heap = insert izq (insert der (set heap2))"
      using set_heappop[OF pop1] set_heappop[OF pop2] by simp
    moreover have "set ?heap3 = insert padre (set heap2)"
      by (rule set_heappush)
    moreover have "simbolos padre = simbolos izq \<union> simbolos der"
      by (simp add: padre_def)
    ultimately have "\<Union> (simbolos ` set ?heap3) = \<Union> (simbolos ` set heap)"
      by auto
    with r step show ?thesis by simp
  next
    case False
    with "1.prems" obtain x where "heap = [x]"
      by (cases heap) auto
    then show ?thesis
      by (subst construir_loop.simps) simp
  qed
qed

lemma construir_arbol_huffman_ok:
  assumes "texto \<noteq> []"
  shows "\<exists>arbol. construir_arbol_huffman texto = Inr (Some arbol) \<and> simbolos arbol = set texto"
proof -
  have "Counter texto \<noteq> []"
    using claves_Counter[of texto] assms by auto
  then have "crear_heap (Counter texto) \<noteq> []"
    by (rule crear_heap_no_vacio)
  from construir_loop_ok[OF this] obtain raiz where
    "construir_loop (crear_heap (Counter texto)) = Inr [raiz]"
    "simbolos raiz = set texto"
    by (auto simp: simbolos_crear_heap claves_Counter)
  with assms show ?thesis
    by (simp add: construir_arbol_huffman_def)
qed

subsection \<open>Claims about the Huffman coder\<close>

text \<open>
  C1 (as stated): the empty input is rejected with an invalid-input error and never
  yields a null tree or an empty code table. The code does the opposite: the guard
  \<open>if not texto: return None\<close> returns the null tree as an ordinary value, and
  \<open>generar_codigos\<close> turns it into the empty table.
\<close>

theorem huffman_vacio_contraejemplo:
  "\<not> isl (construir_arbol_huffman ([] :: string)) \<and>
   construir_arbol_huffman ([] :: string) = Inr None \<and>
   dom (generar_codigos (None :: char NodoHuffman option) [] Map.empty) = {}"
  by (simp add: construir_arbol_huffman_def)

text \<open>
  C1 (amended): for the empty input sequence \<open>construir_arbol_huffman\<close> raises nothing
  and returns \<open>None\<close> (no tree), and \<open>generar_codigos\<close> applied to that result returns
  the empty code table.
\<close>

theorem huffman_vacio:
  "construir_arbol_huffman [] = Inr None \<and>
   generar_codigos None [] Map.empty = Map.empty"
  by (simp add: construir_arbol_huffman_def)

text \<open>
  C7: for every non-empty text the tree is built without error, the code table has
  exactly the symbols of the text as keys, and the codes of two different symbols are
  never prefixes of one another (so no code is a proper prefix of another, and no two
  symbols share a code).
\<close>

theorem huffman_libre_de_prefijos:
  assumes "texto \<noteq> []"
  shows "\<exists>arbol. construir_arbol_huffman texto = Inr (Some arbol) \<and>
           dom (generar_codigos (Some arbol) [] Map.empty) = set texto \<and>
           (\<forall>c1 c2 k1 k2.
              generar_codigos (Some arbol) [] Map.empty c1 = Some k1 \<and>
              generar_codigos (Some arbol) [] Map.empty c2 = Some k2 \<and> c1 \<noteq> c2
              \<longrightarrow> \<not> prefix k1 k2)"
proof -
  from construir_arbol_huffman_ok[OF assms] obtain arbol where
    a: "construir_arbol_huffman texto = Inr (Some arbol)" "simbolos arbol = set texto"
    by blast
  have "dom (generar_codigos (Some arbol) [] Map.empty) = set texto"
    using a(2) by (simp add: simbolos_def)
  moreover have "\<forall>c1 c2 k1 k2.
              generar_codigos (Some arbol) [] Map.empty c1 = Some k1 \<and>
              generar_codigos (Some arbol) [] Map.empty c2 = Some k2 \<and> c1 \<noteq> c2
              \<longrightarrow> \<not> prefix k1 k2"
    using generar_codigos_libre_de_prefijos[of "Some arbol" "[]"] by blast
  ultimately show ?thesis using a(1) by blast
qed

theorem huffman_libre_de_prefijos_testigo:
  "''aaabb'' \<noteq> [] \<and>
   (\<exists>arbol. construir_arbol_huffman ''aaabb'' = Inr (Some arbol) \<and>
      dom (generar_codigos (Some arbol) [] Map.empty) = set ''aaabb'' \<and>
      (\<forall>c1 c2 k1 k2.
         generar_codigos (Some arbol) [] Map.empty c1 = Some k1 \<and>
         generar_codigos (Some arbol) [] Map.empty c2 = Some k2 \<and> c1 \<noteq> c2
         \<longrightarrow> \<not> prefix k1 k2))"
  using huffman_libre_de_prefijos[of "''aaabb''"] by simp

lemma foldl_incrementar_unico:
  "set texto \<subseteq> {c} \<Longrightarrow>
   foldl (\<lambda>m x. incrementar x m) [(c, n)] texto = [(c, n + length texto)]"
  by (induction texto arbitrary: n) auto

lemma Counter_unico:
  assumes "set texto = {c}"
  shows "Counter texto = [(c, length texto)]"
proof (cases texto)
  case Nil
  with assms show ?thesis by simp
next
  case (Cons x xs)
  with assms have "x = c" "set xs \<subseteq> {c}" by auto
  with Cons show ?thesis
    by (simp add: Counter_def foldl_incrementar_unico)
qed

lemma heappush_vacio: "heappush lt [] item = [item]"
  by (simp add: heappush_def siftdown_def siftdown_loop.simps)

text \<open>
  C9: a non-empty text with exactly one distinct symbol \<open>c\<close> gives the one-leaf tree
  holding \<open>c\<close> with the length of the text as its frequency, and the code table
  assigns \<open>c\<close> the code \<open>''0''\<close>, of length 1.
\<close>

theorem huffman_simbolo_unico:
  assumes "set texto = {c}"
  shows "construir_arbol_huffman texto
           = Inr (Some (NodoHuffman (Some c) (length texto) None None)) \<and>
         generar_codigos (Some (NodoHuffman (Some c) (length texto) None None)) [] Map.empty
           = [c \<mapsto> ''0''] \<and>
         (\<exists>k. generar_codigos (Some (NodoHuffman (Some c) (length texto) None None)) []
                 Map.empty c = Some k \<and> 1 \<le> length k)"
proof -
  from assms have "texto \<noteq> []" by auto
  moreover have "crear_heap (Counter texto) = [NodoHuffman (Some c) (length texto) None None]"
    by (simp add: Counter_unico[OF assms] crear_heap_def heappush_vacio)
  moreover have "construir_loop [NodoHuffman (Some c) (length texto) None None]
                 = Inr [NodoHuffman (Some c) (length texto) None None]"
    by (subst construir_loop.simps) simp
  ultimately show ?thesis
    by (simp add: construir_arbol_huffman_def)
qed

theorem huffman_simbolo_unico_testigo:
  "set ''xxx'' = {CHR ''x''} \<and>
   construir_arbol_huffman ''xxx'' = Inr (Some (NodoHuffman (Some CHR ''x'') 3 None None)) \<and>
   generar_codigos (Some (NodoHuffman (Some CHR ''x'') 3 None None)) [] Map.empty
     = [CHR ''x'' \<mapsto> ''0'']"
proof -
  have h: "set ''xxx'' = {CHR ''x''}" by simp
  from huffman_simbolo_unico[OF h] h show ?thesis by simp
qed

section \<open>Weighted undirected graphs\<close>

text \<open>
  The engines receive a \<open>networkx.Graph\<close>: a dictionary from node to a dictionary from
  neighbour to edge weight, both in insertion order. It is modelled as an association
  list of association lists. \<open>add_edge\<close> is the operation \<open>leer_grafo_csv\<close> builds
  the graph with, one call per row \<open>origen,destino,peso\<close>.
\<close>

type_synonym 'a grafo = "('a \<times> ('a \<times> real) list) list"

definition nodes :: "'a grafo \<Rightarrow> 'a list" where
  "nodes grafo = map fst grafo"

definition neighbors :: "'a grafo \<Rightarrow> 'a \<Rightarrow> error + ('a \<times> real) list" where
  "neighbors grafo n = (case map_of grafo n of None \<Rightarrow> Inl NetworkXError | Some nbrs \<Rightarrow> Inr nbrs)"

definition add_node :: "'a \<Rightarrow> 'a grafo \<Rightarrow> 'a grafo" where
  "add_node n grafo = (if n \<in> set (nodes grafo) then grafo else grafo @ [(n, [])])"

definition add_edge :: "'a \<Rightarrow> 'a \<Rightarrow> real \<Rightarrow> 'a grafo \<Rightarrow> 'a grafo" where
  "add_edge u v weight grafo =
     AList.map_entry v (AList.update u weight)
       (AList.map_entry u (AList.update v weight) (add_node v (add_node u grafo)))"

definition leer_grafo :: "('a \<times> 'a \<times> real) list \<Rightarrow> 'a grafo" where
  "leer_grafo filas = foldl (\<lambda>grafo (origen, destino, peso). add_edge origen destino peso grafo) [] filas"

fun edges_from :: "'a grafo \<Rightarrow> 'a set \<Rightarrow> ('a \<times> 'a \<times> real) list" where
  "edges_from [] seen = []"
| "edges_from ((n, nbrs) # resto) seen =
     map (\<lambda>(nbr, w). (n, nbr, w)) (filter (\<lambda>(nbr, w). nbr \<notin> seen) nbrs)
       @ edges_from resto (insert n seen)"

definition edges :: "'a grafo \<Rightarrow> ('a \<times> 'a \<times> real) list" where
  "edges grafo = edges_from grafo {}"

definition grafo_ok :: "'a grafo \<Rightarrow> bool" where
  "grafo_ok grafo \<longleftrightarrow>
     distinct (map fst grafo) \<and>
     list_all (\<lambda>(u, nbrs).
        distinct (map fst nbrs) \<and>
        list_all (\<lambda>(v, w). 0 \<le> w \<and>
           (case map_of grafo v of None \<Rightarrow> False | Some nbrs' \<Rightarrow> map_of nbrs' u = Some w)) nbrs)
       grafo"

section \<open>Dijkstra's shortest paths\<close>

text \<open>
  A distance is a Python float: a finite number or \<open>float('inf')\<close>. Edge weights and
  the sums pushed on the heap are finite; they are modelled as real numbers.
\<close>

datatype distancia = Finita real | Infinito

fun menor :: "real \<Rightarrow> distancia \<Rightarrow> bool" where
  "menor x (Finita y) = (x < y)"
| "menor x Infinito = True"

text \<open>
  The body of \<open>for vecino in grafo.neighbors(nodo_actual)\<close>. The loop runs over the
  items of the adjacency dictionary of \<open>nodo_actual\<close>: \<open>vecino\<close> is the key and
  \<open>grafo[nodo_actual][vecino]['weight']\<close> the value stored under it.
\<close>

fun relajar ::
  "'a::linorder \<Rightarrow> real \<Rightarrow> ('a \<times> real) list \<Rightarrow> 'a set \<Rightarrow>
   ('a \<rightharpoonup> distancia) \<Rightarrow> ('a \<rightharpoonup> 'a option) \<Rightarrow> (real \<times> 'a) list \<Rightarrow>
   error + (('a \<rightharpoonup> distancia) \<times> ('a \<rightharpoonup> 'a option) \<times> (real \<times> 'a) list)" where
  "relajar nodo_actual dist_actual [] visitados distancias predecesores heap =
     Inr (distancias, predecesores, heap)"
| "relajar nodo_actual dist_actual ((vecino, peso_arista) # resto) visitados
       distancias predecesores heap =
     (if vecino \<notin> visitados then
        (let nueva_distancia = dist_actual + peso_arista
         in case distancias vecino of
              None \<Rightarrow> Inl KeyError
            | Some d \<Rightarrow>
                if menor nueva_distancia d
                then relajar nodo_actual dist_actual resto visitados
                       (distancias(vecino \<mapsto> Finita nueva_distancia))
                       (predecesores(vecino \<mapsto> Some nodo_actual))
                       (heappush (<) heap (nueva_distancia, vecino))
                else relajar nodo_actual dist_actual resto visitados
                       distancias predecesores heap)
      else relajar nodo_actual dist_actual resto visitados distancias predecesores heap)"

function dijkstra_loop ::
  "'a::linorder grafo \<Rightarrow> ('a \<rightharpoonup> distancia) \<Rightarrow> ('a \<rightharpoonup> 'a option) \<Rightarrow> (real \<times> 'a) list \<Rightarrow>
   'a set \<Rightarrow> error + (('a \<rightharpoonup> distancia) \<times> ('a \<rightharpoonup> 'a option))" where
  "dijkstra_loop grafo distancias predecesores heap visitados =
     (if heap \<noteq> [] then
        (case heappop (<) heap of
           Inl e \<Rightarrow> Inl e
         | Inr ((dist_actual, nodo_actual), heap1) \<Rightarrow>
             if nodo_actual \<in> visitados
             then dijkstra_loop grafo distancias predecesores heap1 visitados
             else (case neighbors grafo nodo_actual of
                     Inl e \<Rightarrow> Inl e
                   | Inr vecinos \<Rightarrow>
                       (case relajar nodo_actual dist_actual vecinos
                               (insert nodo_actual visitados) distancias predecesores heap1 of
                          Inl e \<Rightarrow> Inl e
                        | Inr (distancias', predecesores', heap2) \<Rightarrow>
                            dijkstra_loop grafo distancias' predecesores' heap2
                              (insert nodo_actual visitados))))
      else Inr (distancias, predecesores))"
  by pat_completeness auto
termination
proof (relation "measures [\<lambda>(grafo, distancias, predecesores, heap, visitados).
                              card (set (nodes grafo) - visitados),
                           \<lambda>(grafo, distancias, predecesores, heap, visitados). length heap]",
       goal_cases)
  case 1
  show ?case by simp
next
  case (2 grafo distancias predecesores heap visitados x2 x1 heap1 dist_actual nodo_actual)
  then have "Suc (length heap1) = length heap"
    by (auto dest: length_heappop)
  then show ?case by simp
next
  case (3 grafo distancias predecesores heap visitados x2 x1 heap1 dist_actual nodo_actual
          vecinos x2a distancias' x2b predecesores' heap2)
  then have "nodo_actual \<in> set (nodes grafo)"
    by (auto simp: neighbors_def nodes_def split: option.splits dest: map_of_SomeD
             intro: rev_image_eqI)
  with 3 have "card (set (nodes grafo) - insert nodo_actual visitados)
               < card (set (nodes grafo) - visitados)"
    by (intro psubset_card_mono) auto
  then show ?case by simp
qed

declare dijkstra_loop.simps [simp del]

definition algoritmo_dijkstra ::
  "'a::linorder grafo \<Rightarrow> 'a \<Rightarrow> error + (('a \<rightharpoonup> distancia) \<times> ('a \<rightharpoonup> 'a option))" where
  "algoritmo_dijkstra grafo nodo_origen =
     (if nodo_origen \<notin> set (nodes grafo) then Inl ValueError
      else (let distancias = (map_of (map (\<lambda>nodo. (nodo, Infinito)) (nodes grafo)))
                               (nodo_origen \<mapsto> Finita 0);
                predecesores = map_of (map (\<lambda>nodo. (nodo, None)) (nodes grafo));
                heap = [(0, nodo_origen)];
                visitados = {}
            in dijkstra_loop grafo distancias predecesores heap visitados))"

text \<open>
  \<open>reconstruir_camino\<close>: the \<open>while\<close> loop follows the predecessor links until it
  reads \<open>None\<close>; it raises \<open>KeyError\<close> at a node without an entry and never returns
  on a cycle of predecessors.
\<close>

partial_function (option) seguir ::
  "('a \<rightharpoonup> 'a option) \<Rightarrow> 'a option \<Rightarrow> 'a list \<Rightarrow> (error + 'a list) option" where
  "seguir predecesores nodo_actual camino =
     (case nodo_actual of
        None \<Rightarrow> Some (Inr camino)
      | Some n \<Rightarrow>
          (case predecesores n of
             None \<Rightarrow> Some (Inl KeyError)
           | Some anterior \<Rightarrow> seguir predecesores anterior (camino @ [n])))"

declare seguir.simps [code]

definition reconstruir_camino ::
  "'a \<Rightarrow> ('a \<rightharpoonup> 'a option) \<Rightarrow> (error + 'a list option) option" where
  "reconstruir_camino nodo_destino predecesores =
     (case predecesores nodo_destino of
        None \<Rightarrow> Some (Inl KeyError)
      | Some p \<Rightarrow>
          if p = None \<and> nodo_destino \<in> dom predecesores then Some (Inr None)
          else (case seguir predecesores (Some nodo_destino) [] of
                  None \<Rightarrow> None
                | Some (Inl e) \<Rightarrow> Some (Inl e)
                | Some (Inr camino) \<Rightarrow>
                    (let camino' = rev camino
                     in if length camino' = 1 \<and>
                           (case camino' of [] \<Rightarrow> False | n # _ \<Rightarrow> predecesores n \<noteq> Some None)
                        then Some (Inr None)
                        else Some (Inr (Some camino')))))"

subsection \<open>Claims about the shortest-path engine\<close>

text \<open>
  C8: a source node that is not in the graph makes \<open>algoritmo_dijkstra\<close> raise
  \<open>ValueError\<close> (``El nodo origen ... no existe en el grafo''); the result is the
  error alone, so no distance or predecessor map is returned.
\<close>

theorem dijkstra_origen_desconocido:
  "nodo_origen \<notin> set (nodes grafo) \<Longrightarrow> algoritmo_dijkstra grafo nodo_origen = Inl ValueError"
  by (simp add: algoritmo_dijkstra_def)

theorem dijkstra_origen_desconocido_testigo:
  "''Z'' \<notin> set (nodes (leer_grafo [(''A'', ''B'', 1), (''B'', ''C'', 2), (''A'', ''C'', 3)])) \<and>
   algoritmo_dijkstra (leer_grafo [(''A'', ''B'', 1), (''B'', ''C'', 2), (''A'', ''C'', 3)]) ''Z''
     = Inl ValueError"
proof -
  have h: "''Z'' \<notin> set (nodes (leer_grafo [(''A'', ''B'', 1), (''B'', ''C'', 2), (''A'', ''C'', 3)]))"
    by code_simp
  from dijkstra_origen_desconocido[OF h] h show ?thesis by simp
qed

text \<open>
  C2 (evaluation of the code): on the graph with edges A-B and C-D, run from the
  source A, \<open>reconstruir_camino\<close> answers \<open>None\<close> both for the source A itself and
  for the unreachable node C, so the two cases are not distinguished.
\<close>

theorem reconstruir_camino_origen_igual_que_inalcanzable:
  "(case algoritmo_dijkstra (leer_grafo [(''A'', ''B'', 1), (''C'', ''D'', 1)]) ''A'' of
      Inl e \<Rightarrow> False
    | Inr (distancias, predecesores) \<Rightarrow>
        distancias ''A'' = Some (Finita 0) \<and> distancias ''C'' = Some Infinito \<and>
        reconstruir_camino ''A'' predecesores = Some (Inr None) \<and>
        reconstruir_camino ''C'' predecesores = Some (Inr None) \<and>
        reconstruir_camino ''B'' predecesores = Some (Inr (Some [''A'', ''B''])))"
  by code_simp

section \<open>Union-Find\<close>

text \<open>
  The two dictionaries of the class \<open>UnionFind\<close>. \<open>UnionFind_init\<close> is its
  \<open>__init__\<close>: every element is its own parent, with rank 0.
\<close>

record 'a UnionFind =
  padre :: "'a \<rightharpoonup> 'a"
  rango :: "'a \<rightharpoonup> nat"

definition UnionFind_init :: "'a list \<Rightarrow> 'a UnionFind" where
  "UnionFind_init elementos =
     \<lparr>padre = map_of (map (\<lambda>elem. (elem, elem)) elementos),
      rango = map_of (map (\<lambda>elem. (elem, 0)) elementos)\<rparr>"

text \<open>
  \<open>encontrar\<close> recurses along the parent links and rewrites the entry of every node
  on the way back (path compression). A lookup of an unregistered element raises
  \<open>KeyError\<close>; on a cyclic parent map the recursion would not end, which is the
  value \<open>None\<close> here. The method returns \<open>self.padre[elemento]\<close>, read after the
  assignment: the root just stored.
\<close>

partial_function (option) encontrar ::
  "'a UnionFind \<Rightarrow> 'a \<Rightarrow> (error + ('a \<times> 'a UnionFind)) option" where
  "encontrar uf elemento =
     (case padre uf elemento of
        None \<Rightarrow> Some (Inl KeyError)
      | Some p \<Rightarrow>
          if p \<noteq> elemento then
            Option.bind (encontrar uf p)
              (\<lambda>res. case res of
                   Inl e \<Rightarrow> Some (Inl e)
                 | Inr (raiz, uf') \<Rightarrow>
                     Some (Inr (raiz, uf'\<lparr>padre := (padre uf')(elemento \<mapsto> raiz)\<rparr>)))
          else Some (Inr (p, uf)))"

declare encontrar.simps [code]

definition unir ::
  "'a UnionFind \<Rightarrow> 'a \<Rightarrow> 'a \<Rightarrow> (error + (bool \<times> 'a UnionFind)) option" where
  "unir uf elem1 elem2 =
     Option.bind (encontrar uf elem1)
       (\<lambda>res1. case res1 of
            Inl e \<Rightarrow> Some (Inl e)
          | Inr (raiz1, uf1) \<Rightarrow>
              Option.bind (encontrar uf1 elem2)
                (\<lambda>res2. case res2 of
                     Inl e \<Rightarrow> Some (Inl e)
                   | Inr (raiz2, uf2) \<Rightarrow>
                       if raiz1 = raiz2 then Some (Inr (False, uf2))
                       else (case (rango uf2 raiz1, rango uf2 raiz2) of
                               (Some k1, Some k2) \<Rightarrow>
                                 if k1 < k2 then
                                   Some (Inr (True, uf2\<lparr>padre := (padre uf2)(raiz1 \<mapsto> raiz2)\<rparr>))
                                 else if k1 > k2 then
                                   Some (Inr (True, uf2\<lparr>padre := (padre uf2)(raiz2 \<mapsto> raiz1)\<rparr>))
                                 else
                                   Some (Inr (True, uf2\<lparr>padre := (padre uf2)(raiz2 \<mapsto> raiz1),
                                                         rango := (rango uf2)(raiz1 \<mapsto> k1 + 1)\<rparr>))
                             | _ \<Rightarrow> Some (Inl KeyError))))"

text \<open>The comparison \<open>uf.encontrar(a) == uf.encontrar(b)\<close>, the two calls in sequence.\<close>

definition mismo_conjunto :: "'a UnionFind \<Rightarrow> 'a \<Rightarrow> 'a \<Rightarrow> (error + bool) option" where
  "mismo_conjunto uf a b =
     Option.bind (encontrar uf a)
       (\<lambda>res1. case res1 of
            Inl e \<Rightarrow> Some (Inl e)
          | Inr (raiz1, uf1) \<Rightarrow>
              Option.bind (encontrar uf1 b)
                (\<lambda>res2. case res2 of
                     Inl e \<Rightarrow> Some (Inl e)
                   | Inr (raiz2, uf2) \<Rightarrow> Some (Inr (raiz1 = raiz2))))"

text \<open>A sequence of method calls on one \<open>UnionFind\<close> object, stopping at the first error.\<close>

datatype 'a llamada = Encontrar 'a | Unir 'a 'a

fun elementos_de :: "'a llamada \<Rightarrow> 'a set" where
  "elementos_de (Encontrar x) = {x}"
| "elementos_de (Unir x y) = {x, y}"

fun llamar :: "'a UnionFind \<Rightarrow> 'a llamada \<Rightarrow> (error + 'a UnionFind) option" where
  "llamar uf (Encontrar x) =
     Option.bind (encontrar uf x)
       (\<lambda>res. case res of Inl e \<Rightarrow> Some (Inl e) | Inr (raiz, uf') \<Rightarrow> Some (Inr uf'))"
| "llamar uf (Unir x y) =
     Option.bind (unir uf x y)
       (\<lambda>res. case res of Inl e \<Rightarrow> Some (Inl e) | Inr (unidos, uf') \<Rightarrow> Some (Inr uf'))"

fun ejecutar :: "'a UnionFind \<Rightarrow> 'a llamada list \<Rightarrow> (error + 'a UnionFind) option" where
  "ejecutar uf [] = Some (Inr uf)"
| "ejecutar uf (c # cs) =
     Option.bind (llamar uf c)
       (\<lambda>res. case res of Inl e \<Rightarrow> Some (Inl e) | Inr uf' \<Rightarrow> ejecutar uf' cs)"

text \<open>
  \<open>raiz_de p x r\<close>: following the parent links of \<open>p\<close> from \<open>x\<close> ends at the
  self-loop \<open>r\<close>. The parent map is a forest when every registered element has a root.
\<close>

inductive raiz_de :: "('a \<rightharpoonup> 'a) \<Rightarrow> 'a \<Rightarrow> 'a \<Rightarrow> bool" for p :: "'a \<rightharpoonup> 'a" where
  raiz: "p x = Some x \<Longrightarrow> raiz_de p x x"
| paso: "p x = Some y \<Longrightarrow> y \<noteq> x \<Longrightarrow> raiz_de p y r \<Longrightarrow> raiz_de p x r"

definition bosque :: "'a UnionFind \<Rightarrow> bool" where
  "bosque uf \<longleftrightarrow> (\<forall>x \<in> dom (padre uf). \<exists>r. raiz_de (padre uf) x r) \<and>
                dom (rango uf) = dom (padre uf)"

definition clases :: "'a UnionFind \<Rightarrow> ('a \<times> 'a) set" where
  "clases uf = {(a, b). \<exists>r. raiz_de (padre uf) a r \<and> raiz_de (padre uf) b r}"

text \<open>The pairs connected by a chain of the unions \<open>pares\<close>, in either direction.\<close>

definition cadena :: "('a \<times> 'a) list \<Rightarrow> ('a \<times> 'a) set" where
  "cadena pares = (set pares \<union> (set pares)\<inverse>)\<^sup>*"

subsection \<open>Roots of a parent map\<close>

lemma raiz_de_unica: "raiz_de p x r \<Longrightarrow> raiz_de p x r' \<Longrightarrow> r = r'"
proof (induction arbitrary: r' rule: raiz_de.induct)
  case (raiz x)
  from raiz.prems show ?case
  proof (cases rule: raiz_de.cases)
    case raiz
    then show ?thesis by simp
  next
    case (paso y)
    with raiz.hyps show ?thesis by simp
  qed
next
  case (paso x y r)
  from paso.prems show ?case
  proof (cases rule: raiz_de.cases)
    case raiz
    with paso.hyps(1,2) show ?thesis by simp
  next
    case (paso y')
    with paso.hyps(1) have "y' = y" by simp
    with paso(3) show ?thesis by (simp add: paso.IH)
  qed
qed

lemma raiz_de_es_raiz: "raiz_de p x r \<Longrightarrow> p r = Some r"
  by (induction rule: raiz_de.induct) auto

lemma raiz_de_dom: "raiz_de p x r \<Longrightarrow> x \<in> dom p"
  by (cases rule: raiz_de.cases) auto

lemma raiz_de_raiz_dom: "raiz_de p x r \<Longrightarrow> r \<in> dom p"
  by (auto dest: raiz_de_es_raiz)

lemma raiz_de_raiz_iff:
  assumes "p r = Some r"
  shows "raiz_de p r s \<longleftrightarrow> s = r"
proof
  assume "raiz_de p r s"
  then show "s = r"
    using assms by (cases rule: raiz_de.cases) auto
next
  assume "s = r"
  with assms show "raiz_de p r s"
    by (simp add: raiz_de.raiz)
qed

lemma raiz_de_comprimir:
  assumes "raiz_de p x r" "raiz_de p y s"
  shows "raiz_de (p(x \<mapsto> r)) y s"
  using assms(2)
proof (induction rule: raiz_de.induct)
  case (raiz y)
  show ?case
  proof (cases "y = x")
    case True
    with raiz assms(1) have "r = x"
      by (simp add: raiz_de_raiz_iff)
    with True have "(p(x \<mapsto> r)) y = Some y" by simp
    then show ?thesis by (rule raiz_de.raiz)
  next
    case False
    with raiz have "(p(x \<mapsto> r)) y = Some y" by simp
    then show ?thesis by (rule raiz_de.raiz)
  qed
next
  case (paso y z s)
  show ?case
  proof (cases "y = x")
    case True
    have "raiz_de p x s"
      using paso.hyps True by (simp add: raiz_de.paso)
    with assms(1) have rs: "r = s" by (rule raiz_de_unica)
    have root: "p s = Some s" using paso.hyps(3) by (rule raiz_de_es_raiz)
    have sx: "s \<noteq> x" using root paso.hyps(1,2) True by auto
    then have "(p(x \<mapsto> r)) s = Some s" using root by simp
    then have ss: "raiz_de (p(x \<mapsto> r)) s s" by (rule raiz_de.raiz)
    have "(p(x \<mapsto> r)) x = Some s" using rs by simp
    then have "raiz_de (p(x \<mapsto> r)) x s"
      using sx ss by (rule raiz_de.paso)
    with True show ?thesis by (simp add: fun_upd_def)
  next
    case False
    with paso.hyps(1) have "(p(x \<mapsto> r)) y = Some z" by simp
    then show ?thesis
      using paso.hyps(2) paso.IH by (rule raiz_de.paso)
  qed
qed

lemma raiz_de_enlazar:
  assumes "p r1 = Some r1" "p r2 = Some r2" "r1 \<noteq> r2" "raiz_de p y s"
  shows "raiz_de (p(r1 \<mapsto> r2)) y (if s = r1 then r2 else s)"
  using assms(4)
proof (induction rule: raiz_de.induct)
  case (raiz y)
  show ?case
  proof (cases "y = r1")
    case True
    have "(p(r1 \<mapsto> r2)) r2 = Some r2" using assms(2,3) by simp
    then have r2: "raiz_de (p(r1 \<mapsto> r2)) r2 r2" by (rule raiz_de.raiz)
    have "(p(r1 \<mapsto> r2)) r1 = Some r2" by simp
    then have "raiz_de (p(r1 \<mapsto> r2)) r1 r2"
      using assms(3)[symmetric] r2 by (rule raiz_de.paso)
    with True show ?thesis by (simp add: fun_upd_def)
  next
    case False
    with raiz have "(p(r1 \<mapsto> r2)) y = Some y" by simp
    then have "raiz_de (p(r1 \<mapsto> r2)) y y" by (rule raiz_de.raiz)
    with False show ?thesis by (simp add: fun_upd_def)
  qed
next
  case (paso y z s)
  from paso.hyps(1,2) assms(1) have "y \<noteq> r1" by auto
  with paso.hyps(1) have "(p(r1 \<mapsto> r2)) y = Some z" by simp
  then show ?case
    using paso.hyps(2) paso.IH by (rule raiz_de.paso)
qed

subsection \<open>The invariant and the operations\<close>

lemma bosque_raiz: "bosque uf \<Longrightarrow> x \<in> dom (padre uf) \<Longrightarrow> \<exists>r. raiz_de (padre uf) x r"
  by (auto simp: bosque_def)

lemma padre_init:
  "padre (UnionFind_init elementos) x = (if x \<in> set elementos then Some x else None)"
  by (induction elementos) (auto simp: UnionFind_init_def)

lemma dom_padre_init: "dom (padre (UnionFind_init elementos)) = set elementos"
  by (auto simp: padre_init split: if_splits)

lemma rango_init:
  "rango (UnionFind_init elementos) x = (if x \<in> set elementos then Some 0 else None)"
  by (induction elementos) (auto simp: UnionFind_init_def)

lemma raiz_de_init:
  "raiz_de (padre (UnionFind_init elementos)) x r \<longleftrightarrow> x \<in> set elementos \<and> r = x"
proof
  assume "raiz_de (padre (UnionFind_init elementos)) x r"
  then show "x \<in> set elementos \<and> r = x"
    by (induction rule: raiz_de.induct) (auto simp: padre_init split: if_splits)
next
  assume "x \<in> set elementos \<and> r = x"
  then show "raiz_de (padre (UnionFind_init elementos)) x r"
    by (auto intro!: raiz_de.raiz simp: padre_init)
qed

lemma bosque_init: "bosque (UnionFind_init elementos)"
  unfolding bosque_def
  by (auto simp: raiz_de_init dom_padre_init rango_init split: if_splits)

lemma clases_init: "clases (UnionFind_init elementos) = Id_on (set elementos)"
  by (auto simp: clases_def raiz_de_init)

lemma encontrar_raiz_de:
  "raiz_de (padre uf) x r \<Longrightarrow>
   \<exists>uf'. encontrar uf x = Some (Inr (r, uf')) \<and> rango uf' = rango uf \<and>
         dom (padre uf') = dom (padre uf) \<and>
         (\<forall>y s. raiz_de (padre uf) y s \<longrightarrow> raiz_de (padre uf') y s)"
proof (induction rule: raiz_de.induct)
  case (raiz x)
  then have "encontrar uf x = Some (Inr (x, uf))"
    by (subst encontrar.simps) simp
  then show ?case by blast
next
  case (paso x y r)
  then obtain uf1 where uf1: "encontrar uf y = Some (Inr (r, uf1))" "rango uf1 = rango uf"
      "dom (padre uf1) = dom (padre uf)"
      "\<And>z s. raiz_de (padre uf) z s \<Longrightarrow> raiz_de (padre uf1) z s"
    by blast
  define uf' where "uf' = uf1\<lparr>padre := (padre uf1)(x \<mapsto> r)\<rparr>"
  have 1: "encontrar uf x = Some (Inr (r, uf'))"
    using paso.hyps(1,2) uf1(1) unfolding uf'_def by (subst encontrar.simps) simp
  have 2: "rango uf' = rango uf"
    using uf1(2) by (simp add: uf'_def)
  have "x \<in> dom (padre uf)" using paso.hyps(1) by blast
  then have 3: "dom (padre uf') = dom (padre uf)"
    using uf1(3) by (auto simp: uf'_def)
  have xr: "raiz_de (padre uf1) x r"
    by (rule uf1(4)) (rule raiz_de.paso[OF paso.hyps])
  have 4: "raiz_de (padre uf') z s" if "raiz_de (padre uf) z s" for z s
    using raiz_de_comprimir[OF xr uf1(4)[OF that]] by (simp add: uf'_def)
  from 1 2 3 4 show ?case by blast
qed

lemma encontrar_bosque:
  assumes "bosque uf" "x \<in> dom (padre uf)"
  shows "\<exists>r uf'. encontrar uf x = Some (Inr (r, uf')) \<and> raiz_de (padre uf) x r \<and>
           bosque uf' \<and> dom (padre uf') = dom (padre uf) \<and> rango uf' = rango uf \<and>
           (\<forall>y s. raiz_de (padre uf') y s \<longleftrightarrow> raiz_de (padre uf) y s)"
proof -
  from bosque_raiz[OF assms] obtain r where r: "raiz_de (padre uf) x r" ..
  from encontrar_raiz_de[OF r] obtain uf' where
      e: "encontrar uf x = Some (Inr (r, uf'))" and rg: "rango uf' = rango uf" and
      d: "dom (padre uf') = dom (padre uf)" and
      fwd: "\<forall>y s. raiz_de (padre uf) y s \<longrightarrow> raiz_de (padre uf') y s"
    by (elim exE conjE)
  have vuelta: "raiz_de (padre uf) y s" if "raiz_de (padre uf') y s" for y s
  proof -
    from that have "y \<in> dom (padre uf')" by (rule raiz_de_dom)
    then have "y \<in> dom (padre uf)" using d by simp
    from bosque_raiz[OF assms(1) this] obtain s' where s': "raiz_de (padre uf) y s'" ..
    with fwd have "raiz_de (padre uf') y s'" by simp
    with that have "s = s'" by (rule raiz_de_unica)
    with s' show ?thesis by simp
  qed
  have b: "bosque uf'"
    unfolding bosque_def
  proof (intro conjI ballI)
    fix y assume "y \<in> dom (padre uf')"
    then have "y \<in> dom (padre uf)" using d by simp
    from bosque_raiz[OF assms(1) this] obtain s where "raiz_de (padre uf) y s" ..
    with fwd have "raiz_de (padre uf') y s" by simp
    then show "\<exists>s. raiz_de (padre uf') y s" ..
  next
    from assms(1) have "dom (rango uf) = dom (padre uf)" by (simp add: bosque_def)
    then show "dom (rango uf') = dom (padre uf')"
      using rg d by simp
  qed
  have igual: "\<forall>y s. raiz_de (padre uf') y s \<longleftrightarrow> raiz_de (padre uf) y s"
    using fwd vuelta by (intro allI iffI) simp_all
  show ?thesis
    by (intro exI conjI) (rule e, rule r, rule b, rule d, rule rg, rule igual)
qed

text \<open>The root of a registered element of a forest.\<close>

definition rep :: "'a UnionFind \<Rightarrow> 'a \<Rightarrow> 'a" where
  "rep uf a = (THE r. raiz_de (padre uf) a r)"

lemma raiz_de_rep:
  assumes "bosque uf" "a \<in> dom (padre uf)"
  shows "raiz_de (padre uf) a (rep uf a)"
proof -
  from bosque_raiz[OF assms] obtain r where r: "raiz_de (padre uf) a r" ..
  have "raiz_de (padre uf) a (THE r. raiz_de (padre uf) a r)"
    using r by (rule theI) (rule raiz_de_unica[OF _ r])
  then show ?thesis by (simp add: rep_def)
qed

lemma rep_eqI: "raiz_de (padre uf) a r \<Longrightarrow> rep uf a = r"
  unfolding rep_def by (rule the_equality) (auto dest: raiz_de_unica)

lemma raiz_de_iff_rep:
  assumes "bosque uf"
  shows "raiz_de (padre uf) a r \<longleftrightarrow> a \<in> dom (padre uf) \<and> r = rep uf a"
proof
  assume h: "raiz_de (padre uf) a r"
  then have "a \<in> dom (padre uf)" by (rule raiz_de_dom)
  moreover from h have "rep uf a = r" by (rule rep_eqI)
  ultimately show "a \<in> dom (padre uf) \<and> r = rep uf a" by simp
next
  assume "a \<in> dom (padre uf) \<and> r = rep uf a"
  then show "raiz_de (padre uf) a r"
    using raiz_de_rep[OF assms] by simp
qed

lemma clases_rep:
  assumes "bosque uf"
  shows "clases uf = {(a, b). a \<in> dom (padre uf) \<and> b \<in> dom (padre uf) \<and> rep uf a = rep uf b}"
  unfolding clases_def raiz_de_iff_rep[OF assms] by auto

lemma rep_raiz:
  assumes "bosque uf" "a \<in> dom (padre uf)"
  shows "padre uf (rep uf a) = Some (rep uf a)"
  using raiz_de_rep[OF assms] by (rule raiz_de_es_raiz)

lemma encontrar_rep:
  assumes "bosque uf" "x \<in> dom (padre uf)"
  shows "\<exists>uf'. encontrar uf x = Some (Inr (rep uf x, uf')) \<and> bosque uf' \<and>
           dom (padre uf') = dom (padre uf) \<and> rango uf' = rango uf \<and> rep uf' = rep uf"
proof -
  from encontrar_bosque[OF assms] obtain r uf' where
      e: "encontrar uf x = Some (Inr (r, uf'))" and r: "raiz_de (padre uf) x r" and
      b: "bosque uf'" and d: "dom (padre uf') = dom (padre uf)" and
      rg: "rango uf' = rango uf" and
      eq: "\<forall>y s. raiz_de (padre uf') y s \<longleftrightarrow> raiz_de (padre uf) y s"
    by (elim exE conjE)
  from r have rx: "rep uf x = r" by (rule rep_eqI)
  have "rep uf' = rep uf"
    by (rule ext) (simp add: rep_def eq)
  with e b d rg rx show ?thesis by simp
qed

lemma enlazar_rep:
  assumes b: "bosque uf" and ra: "padre uf ra = Some ra" and rb: "padre uf rb = Some rb"
    and ne: "ra \<noteq> rb" and p': "padre uf' = (padre uf)(ra \<mapsto> rb)"
    and rg: "dom (rango uf') = dom (rango uf)"
  shows "bosque uf' \<and> dom (padre uf') = dom (padre uf) \<and>
         (\<forall>a \<in> dom (padre uf). rep uf' a = (if rep uf a = ra then rb else rep uf a))"
proof -
  have d: "dom (padre uf') = dom (padre uf)"
    using ra p' by auto
  have root: "raiz_de (padre uf') a (if rep uf a = ra then rb else rep uf a)"
    if "a \<in> dom (padre uf)" for a
    unfolding p' using ra rb ne raiz_de_rep[OF b that] by (rule raiz_de_enlazar)
  have "bosque uf'"
    unfolding bosque_def
  proof (intro conjI ballI)
    fix a assume "a \<in> dom (padre uf')"
    then have "a \<in> dom (padre uf)" using d by simp
    from root[OF this] show "\<exists>r. raiz_de (padre uf') a r" ..
  next
    from b have "dom (rango uf) = dom (padre uf)" by (simp add: bosque_def)
    then show "dom (rango uf') = dom (padre uf')" using rg d by simp
  qed
  moreover have "\<forall>a \<in> dom (padre uf). rep uf' a = (if rep uf a = ra then rb else rep uf a)"
    using root by (intro ballI rep_eqI)
  ultimately show ?thesis using d by simp
qed

lemma clases_tras_enlazar:
  assumes "\<forall>a \<in> D. rep' a = (if rp a = ra then rb else rp a)"
    and "ra = r1 \<and> rb = r2 \<or> ra = r2 \<and> rb = r1" "a \<in> D" "b \<in> D"
  shows "rep' a = rep' b \<longleftrightarrow>
           rp a = rp b \<or> (rp a \<in> {r1, r2} \<and> rp b \<in> {r1, r2})"
proof -
  from assms(1,3) have a: "rep' a = (if rp a = ra then rb else rp a)" by simp
  from assms(1,4) have b: "rep' b = (if rp b = ra then rb else rp b)" by simp
  show ?thesis
    unfolding a b using assms(2) by (auto split: if_splits)
qed

lemma unir_rep:
  assumes b: "bosque uf" and x: "x \<in> dom (padre uf)" and y: "y \<in> dom (padre uf)"
  shows "\<exists>uf'. unir uf x y = Some (Inr (rep uf x \<noteq> rep uf y, uf')) \<and> bosque uf' \<and>
           dom (padre uf') = dom (padre uf) \<and>
           (\<forall>a \<in> dom (padre uf). \<forall>c \<in> dom (padre uf).
              rep uf' a = rep uf' c \<longleftrightarrow>
                rep uf a = rep uf c \<or>
                (rep uf a \<in> {rep uf x, rep uf y} \<and> rep uf c \<in> {rep uf x, rep uf y}))"
proof -
  from encontrar_rep[OF b x] obtain uf1 where
      e1: "encontrar uf x = Some (Inr (rep uf x, uf1))" and b1: "bosque uf1" and
      d1: "dom (padre uf1) = dom (padre uf)" and g1: "rango uf1 = rango uf" and
      r1: "rep uf1 = rep uf"
    by (elim exE conjE)
  from y d1 have y1: "y \<in> dom (padre uf1)" by simp
  from encontrar_rep[OF b1 y1] obtain uf2 where
      e2: "encontrar uf1 y = Some (Inr (rep uf1 y, uf2))" and b2: "bosque uf2" and
      d2: "dom (padre uf2) = dom (padre uf1)" and g2: "rango uf2 = rango uf1" and
      r2: "rep uf2 = rep uf1"
    by (elim exE conjE)
  have d: "dom (padre uf2) = dom (padre uf)" using d1 d2 by simp
  have rr: "rep uf2 = rep uf" using r1 r2 by simp
  let ?r1 = "rep uf x" and ?r2 = "rep uf y"
  show ?thesis
  proof (cases "?r1 = ?r2")
    case True
    have "unir uf x y = Some (Inr (False, uf2))"
      using e1 e2 True r1 by (simp add: unir_def)
    with True b2 d rr show ?thesis by auto
  next
    case False
    have x2: "x \<in> dom (padre uf2)" and y2: "y \<in> dom (padre uf2)"
      using x y d by simp_all
    have p1: "padre uf2 ?r1 = Some ?r1"
      using rep_raiz[OF b2 x2] rr by simp
    have p2: "padre uf2 ?r2 = Some ?r2"
      using rep_raiz[OF b2 y2] rr by simp
    from b2 have dg: "dom (rango uf2) = dom (padre uf2)" by (simp add: bosque_def)
    from p1 dg obtain k1 where k1: "rango uf2 ?r1 = Some k1" by blast
    from p2 dg obtain k2 where k2: "rango uf2 ?r2 = Some k2" by blast
    define uf' where "uf' =
      (if k1 < k2 then uf2\<lparr>padre := (padre uf2)(?r1 \<mapsto> ?r2)\<rparr>
       else if k1 > k2 then uf2\<lparr>padre := (padre uf2)(?r2 \<mapsto> ?r1)\<rparr>
       else uf2\<lparr>padre := (padre uf2)(?r2 \<mapsto> ?r1), rango := (rango uf2)(?r1 \<mapsto> k1 + 1)\<rparr>)"
    have u: "unir uf x y = Some (Inr (True, uf'))"
      using e1 e2 False r1 k1 k2 by (simp add: unir_def uf'_def)
    define ra where "ra = (if k1 < k2 then ?r1 else ?r2)"
    define rb where "rb = (if k1 < k2 then ?r2 else ?r1)"
    have pa: "padre uf2 ra = Some ra" and pb: "padre uf2 rb = Some rb" and ne: "ra \<noteq> rb"
      using p1 p2 False by (simp_all add: ra_def rb_def)
    have p': "padre uf' = (padre uf2)(ra \<mapsto> rb)"
      by (simp add: uf'_def ra_def rb_def)
    have "?r1 \<in> dom (rango uf2)" using k1 by blast
    then have rg: "dom (rango uf') = dom (rango uf2)"
      by (auto simp: uf'_def)
    from enlazar_rep[OF b2 pa pb ne p' rg] have
        b': "bosque uf'" and d': "dom (padre uf') = dom (padre uf2)" and
        l: "\<forall>a \<in> dom (padre uf2). rep uf' a = (if rep uf2 a = ra then rb else rep uf2 a)"
      by simp_all
    have ab: "ra = ?r1 \<and> rb = ?r2 \<or> ra = ?r2 \<and> rb = ?r1"
      by (simp add: ra_def rb_def)
    have "\<forall>a \<in> dom (padre uf). \<forall>c \<in> dom (padre uf).
              rep uf' a = rep uf' c \<longleftrightarrow>
                rep uf a = rep uf c \<or>
                (rep uf a \<in> {?r1, ?r2} \<and> rep uf c \<in> {?r1, ?r2})"
    proof (intro ballI)
      fix a c assume "a \<in> dom (padre uf)" "c \<in> dom (padre uf)"
      then have "a \<in> dom (padre uf2)" "c \<in> dom (padre uf2)" using d by simp_all
      from clases_tras_enlazar[OF l ab this]
      show "rep uf' a = rep uf' c \<longleftrightarrow>
                rep uf a = rep uf c \<or>
                (rep uf a \<in> {?r1, ?r2} \<and> rep uf c \<in> {?r1, ?r2})"
        unfolding rr .
    qed
    with u False b' d' d show ?thesis by simp
  qed
qed

lemma mismo_conjunto_rep:
  assumes b: "bosque uf" and x: "x \<in> dom (padre uf)" and y: "y \<in> dom (padre uf)"
  shows "mismo_conjunto uf x y = Some (Inr (rep uf x = rep uf y))"
proof -
  from encontrar_rep[OF b x] obtain uf1 where
      e1: "encontrar uf x = Some (Inr (rep uf x, uf1))" and b1: "bosque uf1" and
      d1: "dom (padre uf1) = dom (padre uf)" and r1: "rep uf1 = rep uf"
    by (elim exE conjE)
  from y d1 have y1: "y \<in> dom (padre uf1)" by simp
  from encontrar_rep[OF b1 y1] obtain uf2 where
      e2: "encontrar uf1 y = Some (Inr (rep uf1 y, uf2))"
    by (elim exE conjE)
  show ?thesis
    using e1 e2 r1 by (simp add: mismo_conjunto_def)
qed


subsection \<open>Sequences of calls\<close>

text \<open>The pairs united by a sequence of calls.\<close>

fun uniones :: "'a llamada list \<Rightarrow> ('a \<times> 'a) list" where
  "uniones [] = []"
| "uniones (Encontrar x # cs) = uniones cs"
| "uniones (Unir x y # cs) = (x, y) # uniones cs"

lemma uniones_map_Unir: "uniones (map (\<lambda>(u, v). Unir u v) pares) = pares"
  by (induction pares) auto

lemma trans_clases: "bosque uf \<Longrightarrow> trans (clases uf)"
  by (rule transI) (auto simp: clases_rep)

lemma sym_clases: "sym (clases uf)"
  by (rule symI) (auto simp: clases_def)

lemma subset_trancl: "A \<subseteq> B \<Longrightarrow> A \<subseteq> B\<^sup>+"
  by auto

lemma trancl_subset_trancl:
  assumes "A \<subseteq> B\<^sup>+"
  shows "A\<^sup>+ \<subseteq> B\<^sup>+"
proof -
  from assms have "A\<^sup>+ \<subseteq> (B\<^sup>+)\<^sup>+" by (rule trancl_mono_subset)
  then show ?thesis by simp
qed

lemma trancl_eq_trancl:
  assumes "A \<subseteq> B\<^sup>+" "B \<subseteq> A\<^sup>+"
  shows "A\<^sup>+ = B\<^sup>+"
  using assms by (intro equalityI trancl_subset_trancl)

lemma encontrar_clases:
  assumes "bosque uf" "x \<in> dom (padre uf)"
  shows "\<exists>r uf'. encontrar uf x = Some (Inr (r, uf')) \<and> padre uf' r = Some r \<and>
           bosque uf' \<and> dom (padre uf') = dom (padre uf) \<and> rep uf' = rep uf \<and>
           clases uf' = clases uf \<and> r = rep uf x"
proof -
  from encontrar_rep[OF assms] obtain uf' where
      e: "encontrar uf x = Some (Inr (rep uf x, uf'))" and b: "bosque uf'" and
      d: "dom (padre uf') = dom (padre uf)" and r: "rep uf' = rep uf"
    by (elim exE conjE)
  from assms(2) d have x': "x \<in> dom (padre uf')" by simp
  have p: "padre uf' (rep uf x) = Some (rep uf x)"
    using rep_raiz[OF b x'] r by simp
  have c: "clases uf' = clases uf"
    by (simp add: clases_rep[OF b] clases_rep[OF assms(1)] d r)
  from e p b d r c show ?thesis by simp
qed

lemma unir_clases:
  assumes b: "bosque uf" and x: "x \<in> dom (padre uf)" and y: "y \<in> dom (padre uf)"
  shows "\<exists>uf'. unir uf x y = Some (Inr ((x, y) \<notin> clases uf, uf')) \<and> bosque uf' \<and>
           dom (padre uf') = dom (padre uf) \<and>
           clases uf' = (clases uf \<union> {(x, y), (y, x)})\<^sup>+ \<and>
           ((x, y) \<in> clases uf \<longrightarrow> clases uf' = clases uf)"
proof -
  let ?D = "dom (padre uf)"
  from unir_rep[OF b x y] obtain uf' where
      u: "unir uf x y = Some (Inr (rep uf x \<noteq> rep uf y, uf'))" and b': "bosque uf'" and
      d: "dom (padre uf') = ?D" and
      eq: "\<forall>a \<in> ?D. \<forall>c \<in> ?D.
              rep uf' a = rep uf' c \<longleftrightarrow>
                rep uf a = rep uf c \<or>
                (rep uf a \<in> {rep uf x, rep uf y} \<and> rep uf c \<in> {rep uf x, rep uf y})"
    by (elim exE conjE)
  have xy: "(x, y) \<in> clases uf \<longleftrightarrow> rep uf x = rep uf y"
    using x y by (simp add: clases_rep[OF b])
  have c': "clases uf' = {(a, c). a \<in> ?D \<and> c \<in> ?D \<and>
                (rep uf a = rep uf c \<or>
                 (rep uf a \<in> {rep uf x, rep uf y} \<and> rep uf c \<in> {rep uf x, rep uf y}))}"
    unfolding clases_rep[OF b'] d using eq by blast
  have c: "clases uf = {(a, c). a \<in> ?D \<and> c \<in> ?D \<and> rep uf a = rep uf c}"
    by (rule clases_rep[OF b])
  have sub1: "clases uf \<union> {(x, y), (y, x)} \<subseteq> clases uf'"
    unfolding c c' using x y by auto
  have t': "trans (clases uf')" using b' by (rule trans_clases)
  have sub2: "clases uf' \<subseteq> (clases uf \<union> {(x, y), (y, x)})\<^sup>+"
  proof
    fix p assume "p \<in> clases uf'"
    then obtain a e where p: "p = (a, e)" and a: "a \<in> ?D" and e: "e \<in> ?D" and
        h: "rep uf a = rep uf e \<or>
            (rep uf a \<in> {rep uf x, rep uf y} \<and> rep uf e \<in> {rep uf x, rep uf y})"
      unfolding c' by blast
    let ?R = "clases uf \<union> {(x, y), (y, x)}"
    have same: "(u, v) \<in> ?R\<^sup>+" if "u \<in> ?D" "v \<in> ?D" "rep uf u = rep uf v" for u v
    proof -
      from that have "(u, v) \<in> clases uf" unfolding c by simp
      then show ?thesis by blast
    qed
    have xy': "(x, y) \<in> ?R\<^sup>+" "(y, x) \<in> ?R\<^sup>+" by blast+
    from h consider "rep uf a = rep uf e"
      | "rep uf a = rep uf x" "rep uf e = rep uf y"
      | "rep uf a = rep uf y" "rep uf e = rep uf x"
      by auto
    then have "(a, e) \<in> ?R\<^sup>+"
    proof cases
      case 1
      then show ?thesis using a e by (intro same)
    next
      case 2
      have "(a, x) \<in> ?R\<^sup>+" using a x 2(1) by (intro same)
      moreover have "(y, e) \<in> ?R\<^sup>+" using y e 2(2) by (intro same) simp_all
      ultimately show ?thesis using xy'(1) by (meson trancl_trans)
    next
      case 3
      have "(a, y) \<in> ?R\<^sup>+" using a y 3(1) by (intro same)
      moreover have "(x, e) \<in> ?R\<^sup>+" using x e 3(2) by (intro same) simp_all
      ultimately show ?thesis using xy'(2) by (meson trancl_trans)
    qed
    with p show "p \<in> ?R\<^sup>+" by simp
  qed
  have "(clases uf \<union> {(x, y), (y, x)})\<^sup>+ \<subseteq> (clases uf')\<^sup>+"
    using sub1 by (rule trancl_mono_subset)
  then have "(clases uf \<union> {(x, y), (y, x)})\<^sup>+ \<subseteq> clases uf'"
    using t' by (simp add: trancl_id)
  with sub2 have main: "clases uf' = (clases uf \<union> {(x, y), (y, x)})\<^sup>+"
    by (rule equalityI)
  have noop: "clases uf' = clases uf" if "(x, y) \<in> clases uf"
  proof -
    from that have "rep uf x = rep uf y" by (simp add: xy)
    then show ?thesis unfolding c c' by auto
  qed
  from u xy have u': "unir uf x y = Some (Inr ((x, y) \<notin> clases uf, uf'))" by simp
  from u' b' d main noop show ?thesis by blast
qed

lemma ejecutar_clases:
  assumes "bosque uf" "\<forall>c \<in> set cs. elementos_de c \<subseteq> dom (padre uf)"
  shows "\<exists>uf'. ejecutar uf cs = Some (Inr uf') \<and> bosque uf' \<and>
           dom (padre uf') = dom (padre uf) \<and>
           clases uf' = (clases uf \<union> set (uniones cs) \<union> (set (uniones cs))\<inverse>)\<^sup>+"
  using assms
proof (induction cs arbitrary: uf)
  case Nil
  have "(clases uf)\<^sup>+ = clases uf"
    using trans_clases[OF Nil.prems(1)] by (rule trancl_id)
  with Nil.prems(1) show ?case by simp
next
  case (Cons c cs)
  show ?case
  proof (cases c)
    case (Encontrar x)
    with Cons.prems(2) have x: "x \<in> dom (padre uf)" by simp
    from encontrar_clases[OF Cons.prems(1) x] obtain r uf1 where
        e: "encontrar uf x = Some (Inr (r, uf1))" and b1: "bosque uf1" and
        d1: "dom (padre uf1) = dom (padre uf)" and c1: "clases uf1 = clases uf"
      by (elim exE conjE)
    have "\<forall>c \<in> set cs. elementos_de c \<subseteq> dom (padre uf1)"
      using Cons.prems(2) d1 by simp
    from Cons.IH[OF b1 this] obtain uf' where
        ej: "ejecutar uf1 cs = Some (Inr uf')" and b': "bosque uf'" and
        d': "dom (padre uf') = dom (padre uf1)" and
        c': "clases uf' = (clases uf1 \<union> set (uniones cs) \<union> (set (uniones cs))\<inverse>)\<^sup>+"
      by (elim exE conjE)
    have "ejecutar uf (c # cs) = Some (Inr uf')"
      using e ej Encontrar by simp
    with b' d' d1 c' c1 Encontrar show ?thesis by simp
  next
    case (Unir x y)
    with Cons.prems(2) have x: "x \<in> dom (padre uf)" and y: "y \<in> dom (padre uf)" by simp_all
    from unir_clases[OF Cons.prems(1) x y] obtain uf1 where
        u: "unir uf x y = Some (Inr ((x, y) \<notin> clases uf, uf1))" and b1: "bosque uf1" and
        d1: "dom (padre uf1) = dom (padre uf)" and
        c1: "clases uf1 = (clases uf \<union> {(x, y), (y, x)})\<^sup>+"
      by (elim exE conjE)
    have "\<forall>c \<in> set cs. elementos_de c \<subseteq> dom (padre uf1)"
      using Cons.prems(2) d1 by simp
    from Cons.IH[OF b1 this] obtain uf' where
        ej: "ejecutar uf1 cs = Some (Inr uf')" and b': "bosque uf'" and
        d': "dom (padre uf') = dom (padre uf1)" and
        c': "clases uf' = (clases uf1 \<union> set (uniones cs) \<union> (set (uniones cs))\<inverse>)\<^sup>+"
      by (elim exE conjE)
    have ej': "ejecutar uf (c # cs) = Some (Inr uf')"
      using u ej Unir by simp
    let ?U = "set (uniones cs)"
    let ?A = "clases uf1 \<union> ?U \<union> ?U\<inverse>"
    let ?B = "clases uf \<union> set (uniones (c # cs)) \<union> (set (uniones (c # cs)))\<inverse>"
    have B: "?B = (clases uf \<union> {(x, y), (y, x)}) \<union> ?U \<union> ?U\<inverse>"
      using Unir by auto
    have "(clases uf \<union> {(x, y), (y, x)})\<^sup>+ \<subseteq> ?B\<^sup>+"
      unfolding B by (rule trancl_mono_subset) blast
    moreover have "?U \<union> ?U\<inverse> \<subseteq> ?B\<^sup>+"
      unfolding B by (rule subset_trancl) blast
    ultimately have AB: "?A \<subseteq> ?B\<^sup>+"
      unfolding c1 by blast
    have "clases uf \<union> {(x, y), (y, x)} \<subseteq> clases uf1"
      unfolding c1 by (rule subset_trancl) simp
    then have "?B \<subseteq> ?A"
      unfolding B by blast
    then have BA: "?B \<subseteq> ?A\<^sup>+"
      by (rule subset_trancl)
    from AB BA have "?A\<^sup>+ = ?B\<^sup>+" by (rule trancl_eq_trancl)
    with c' have "clases uf' = ?B\<^sup>+" by simp
    with ej' b' d' d1 show ?thesis by simp
  qed
qed

lemma clases_init_cadena:
  assumes "set pares \<subseteq> set elementos \<times> set elementos"
    and "a \<in> set elementos"
  shows "(a, b) \<in> (clases (UnionFind_init elementos) \<union> set pares \<union> (set pares)\<inverse>)\<^sup>+
         \<longleftrightarrow> (a, b) \<in> cadena pares"
proof
  let ?V = "set pares \<union> (set pares)\<inverse>"
  assume "(a, b) \<in> (clases (UnionFind_init elementos) \<union> set pares \<union> (set pares)\<inverse>)\<^sup>+"
  moreover have "clases (UnionFind_init elementos) \<union> set pares \<union> (set pares)\<inverse> \<subseteq> ?V\<^sup>*"
    by (auto simp: clases_init)
  ultimately have "(a, b) \<in> (?V\<^sup>*)\<^sup>+"
    using trancl_mono_subset by blast
  then show "(a, b) \<in> cadena pares"
    by (simp add: cadena_def)
next
  let ?V = "set pares \<union> (set pares)\<inverse>"
  let ?W = "clases (UnionFind_init elementos) \<union> set pares \<union> (set pares)\<inverse>"
  assume "(a, b) \<in> cadena pares"
  then have "(a, b) \<in> ?V\<^sup>*" by (simp add: cadena_def)
  then have "a = b \<or> (a, b) \<in> ?V\<^sup>+"
    by (auto simp: rtrancl_eq_or_trancl)
  then show "(a, b) \<in> ?W\<^sup>+"
  proof
    assume "a = b"
    with assms(2) have "(a, b) \<in> Id_on (set elementos)" by (simp add: Id_on_iff)
    then have "(a, b) \<in> ?W" by (simp add: clases_init)
    then show ?thesis by blast
  next
    assume "(a, b) \<in> ?V\<^sup>+"
    moreover have "?V \<subseteq> ?W" by blast
    ultimately show ?thesis using trancl_mono_subset by blast
  qed
qed

lemma mismo_conjunto_clases:
  assumes "bosque uf" "a \<in> dom (padre uf)" "b \<in> dom (padre uf)"
  shows "mismo_conjunto uf a b = Some (Inr ((a, b) \<in> clases uf))"
  using mismo_conjunto_rep[OF assms] assms(2,3) by (simp add: clases_rep[OF assms(1)])

lemma cadena_snoc:
  "cadena (pares @ [(x, y)]) = (cadena pares \<union> {(x, y), (y, x)})\<^sup>*"
proof -
  have "set (pares @ [(x, y)]) \<union> (set (pares @ [(x, y)]))\<inverse>
        = (set pares \<union> (set pares)\<inverse>) \<union> {(x, y), (y, x)}"
    by auto
  then have "cadena (pares @ [(x, y)]) = ((set pares \<union> (set pares)\<inverse>) \<union> {(x, y), (y, x)})\<^sup>*"
    unfolding cadena_def by (rule arg_cong)
  also have "\<dots> = ((set pares \<union> (set pares)\<inverse>)\<^sup>* \<union> {(x, y), (y, x)})\<^sup>*"
    by (metis rtrancl_Un_rtrancl rtrancl_idemp sup_commute)
  finally show ?thesis by (simp only: cadena_def)
qed


lemma uniones_append: "uniones (cs @ ds) = uniones cs @ uniones ds"
  by (induction cs rule: uniones.induct) simp_all

lemma uniones_registradas:
  "\<forall>c \<in> set cs. elementos_de c \<subseteq> D \<Longrightarrow> set (uniones cs) \<subseteq> D \<times> D"
  by (induction cs rule: uniones.induct) simp_all

lemma ejecutar_snoc:
  "ejecutar uf cs = Some (Inr uf1) \<Longrightarrow> ejecutar uf (cs @ [c]) = llamar uf1 c"
proof (induction cs arbitrary: uf)
  case Nil
  then have "uf1 = uf" by simp
  moreover have "Option.bind (llamar uf c)
      (\<lambda>res. case res of Inl e \<Rightarrow> Some (Inl e) | Inr uf' \<Rightarrow> Some (Inr uf')) = llamar uf c"
    by (cases "llamar uf c") (auto split: sum.splits)
  ultimately show ?case by simp
next
  case (Cons d cs)
  from Cons.prems obtain res where l: "llamar uf d = Some res"
    by (cases "llamar uf d") simp_all
  with Cons.prems obtain uf2 where res: "res = Inr uf2"
    by (cases res) simp_all
  from l res have d: "llamar uf d = Some (Inr uf2)" by simp
  with Cons.prems have r: "ejecutar uf2 cs = Some (Inr uf1)" by simp
  from Cons.IH[OF r] d show ?case by simp
qed

lemma ejecutar_init:
  assumes "\<forall>c \<in> set cs. elementos_de c \<subseteq> set elementos"
  shows "\<exists>uf. ejecutar (UnionFind_init elementos) cs = Some (Inr uf) \<and> bosque uf \<and>
           dom (padre uf) = set elementos \<and>
           (\<forall>a \<in> set elementos. \<forall>b. (a, b) \<in> clases uf \<longleftrightarrow> (a, b) \<in> cadena (uniones cs))"
proof -
  let ?i = "UnionFind_init elementos"
  have b: "bosque ?i" by (rule bosque_init)
  have h: "\<forall>c \<in> set cs. elementos_de c \<subseteq> dom (padre ?i)"
    using assms by (simp add: dom_padre_init)
  from ejecutar_clases[OF b h] obtain uf where
      e: "ejecutar ?i cs = Some (Inr uf)" and b': "bosque uf" and
      d: "dom (padre uf) = dom (padre ?i)" and
      c: "clases uf = (clases ?i \<union> set (uniones cs) \<union> (set (uniones cs))\<inverse>)\<^sup>+"
    by (elim exE conjE)
  have u: "set (uniones cs) \<subseteq> set elementos \<times> set elementos"
    using assms by (rule uniones_registradas)
  have "\<forall>a \<in> set elementos. \<forall>b. (a, b) \<in> clases uf \<longleftrightarrow> (a, b) \<in> cadena (uniones cs)"
    unfolding c using clases_init_cadena[OF u] by blast
  with e b' d show ?thesis by (simp add: dom_padre_init)
qed

lemma encontrar_solo_comprime:
  "raiz_de (padre uf) x r \<Longrightarrow> encontrar uf x = Some (Inr (r', uf')) \<Longrightarrow>
   padre uf' z = padre uf z \<or> padre uf' z = Some r"
proof (induction arbitrary: r' uf' rule: raiz_de.induct)
  case (raiz x)
  then have "encontrar uf x = Some (Inr (x, uf))"
    by (subst encontrar.simps) simp
  with raiz.prems show ?case by simp
next
  case (paso x y r)
  from encontrar_raiz_de[OF paso.hyps(3)] obtain uf1 where
      e1: "encontrar uf y = Some (Inr (r, uf1))"
    by (elim exE conjE)
  have "encontrar uf x = Some (Inr (r, uf1\<lparr>padre := (padre uf1)(x \<mapsto> r)\<rparr>))"
    using paso.hyps(1,2) e1 by (subst encontrar.simps) simp
  with paso.prems have uf': "uf' = uf1\<lparr>padre := (padre uf1)(x \<mapsto> r)\<rparr>" by auto
  from paso.IH[OF e1] have "padre uf1 z = padre uf z \<or> padre uf1 z = Some r" .
  then show ?case unfolding uf' by (cases "z = x") simp_all
qed

text \<open>
  C6: a \<open>UnionFind\<close> is initialised over \<open>elementos\<close> and receives the calls \<open>cs\<close>
  on registered elements, whose \<open>unir\<close> calls unite the pairs \<open>uniones cs\<close>. Every call
  returns, and in the resulting object \<open>uf\<close>: \<open>encontrar(a) == encontrar(b)\<close> holds
  exactly when \<open>a\<close> and \<open>b\<close> are connected by a chain of those unions; a further
  \<open>unir(x, y)\<close> returns \<open>False\<close> exactly when \<open>x\<close> and \<open>y\<close> were already in the same
  set, and then leaves the partition as it was; it returns \<open>True\<close> exactly when they
  were in distinct sets, and afterwards the sets are those of the chains that may also
  use the pair \<open>(x, y)\<close>.
\<close>

theorem union_find_correcto:
  assumes "\<forall>c \<in> set cs. elementos_de c \<subseteq> set elementos"
    and "a \<in> set elementos" "b \<in> set elementos" "x \<in> set elementos" "y \<in> set elementos"
  shows "\<exists>uf unidos uf'.
           ejecutar (UnionFind_init elementos) cs = Some (Inr uf) \<and>
           mismo_conjunto uf a b = Some (Inr ((a, b) \<in> cadena (uniones cs))) \<and>
           unir uf x y = Some (Inr (unidos, uf')) \<and>
           unidos = ((x, y) \<notin> cadena (uniones cs)) \<and>
           mismo_conjunto uf x y = Some (Inr (\<not> unidos)) \<and>
           (\<not> unidos \<longrightarrow> clases uf' = clases uf) \<and>
           mismo_conjunto uf' a b = Some (Inr ((a, b) \<in> cadena (uniones cs @ [(x, y)])))"
proof -
  let ?i = "UnionFind_init elementos"
  from ejecutar_init[OF assms(1)] obtain uf where
      e: "ejecutar ?i cs = Some (Inr uf)" and bq: "bosque uf" and
      d: "dom (padre uf) = set elementos" and
      c: "\<forall>a \<in> set elementos. \<forall>b. (a, b) \<in> clases uf \<longleftrightarrow> (a, b) \<in> cadena (uniones cs)"
    by (elim exE conjE)
  have ad: "a \<in> dom (padre uf)" and bd: "b \<in> dom (padre uf)"
      and xd: "x \<in> dom (padre uf)" and yd: "y \<in> dom (padre uf)"
    using assms(2-5) d by simp_all
  have m1: "mismo_conjunto uf a b = Some (Inr ((a, b) \<in> cadena (uniones cs)))"
    using mismo_conjunto_clases[OF bq ad bd] c assms(2) by simp
  have xy: "(x, y) \<in> clases uf \<longleftrightarrow> (x, y) \<in> cadena (uniones cs)"
    using c assms(4) by simp
  from unir_clases[OF bq xd yd] obtain uf' where
      u: "unir uf x y = Some (Inr ((x, y) \<notin> clases uf, uf'))" and
      noop: "(x, y) \<in> clases uf \<longrightarrow> clases uf' = clases uf"
    by (elim exE conjE)
  define unidos where "unidos = ((x, y) \<notin> cadena (uniones cs))"
  have u': "unir uf x y = Some (Inr (unidos, uf'))"
    using u xy by (simp add: unidos_def)
  have m2: "mismo_conjunto uf x y = Some (Inr (\<not> unidos))"
    using mismo_conjunto_clases[OF bq xd yd] xy by (simp add: unidos_def)
  have n: "\<not> unidos \<longrightarrow> clases uf' = clases uf"
    using noop xy by (simp add: unidos_def)
  have h': "\<forall>c \<in> set (cs @ [Unir x y]). elementos_de c \<subseteq> set elementos"
    using assms(1,4,5) by simp
  from ejecutar_init[OF h'] obtain uf2 where
      e2: "ejecutar ?i (cs @ [Unir x y]) = Some (Inr uf2)" and b2: "bosque uf2" and
      d2: "dom (padre uf2) = set elementos" and
      c2: "\<forall>a \<in> set elementos. \<forall>b. (a, b) \<in> clases uf2 \<longleftrightarrow>
             (a, b) \<in> cadena (uniones (cs @ [Unir x y]))"
    by (elim exE conjE)
  have "ejecutar ?i (cs @ [Unir x y]) = Some (Inr uf')"
    using ejecutar_snoc[OF e, of "Unir x y"] u' by simp
  with e2 have uf2: "uf2 = uf'" by simp
  have ad': "a \<in> dom (padre uf')" and bd': "b \<in> dom (padre uf')"
    using assms(2,3) d2 uf2 by simp_all
  have b': "bosque uf'" using b2 uf2 by simp
  have m3: "mismo_conjunto uf' a b = Some (Inr ((a, b) \<in> cadena (uniones cs @ [(x, y)])))"
    using mismo_conjunto_clases[OF b' ad' bd'] c2 assms(2) uf2
    by (simp add: uniones_append)
  have "unidos = ((x, y) \<notin> cadena (uniones cs))" by (simp add: unidos_def)
  with e m1 u' m2 n m3 show ?thesis by blast
qed

theorem union_find_correcto_testigo:
  "\<exists>uf unidos uf'.
     ejecutar (UnionFind_init [1, 2, 3, 4, 5 :: nat]) [Unir 1 2, Encontrar 2, Unir 3 4]
       = Some (Inr uf) \<and>
     mismo_conjunto uf 1 2
       = Some (Inr ((1, 2) \<in> cadena (uniones [Unir 1 2, Encontrar 2, Unir 3 (4 :: nat)]))) \<and>
     unir uf 2 4 = Some (Inr (unidos, uf')) \<and>
     unidos = ((2, 4) \<notin> cadena (uniones [Unir 1 2, Encontrar 2, Unir 3 (4 :: nat)])) \<and>
     mismo_conjunto uf 2 4 = Some (Inr (\<not> unidos)) \<and>
     (\<not> unidos \<longrightarrow> clases uf' = clases uf) \<and>
     mismo_conjunto uf' 1 2
       = Some (Inr ((1, 2) \<in> cadena (uniones [Unir 1 2, Encontrar 2, Unir 3 (4 :: nat)] @ [(2, 4)])))"
  using union_find_correcto[of "[Unir 1 2, Encontrar 2, Unir 3 4]" "[1, 2, 3, 4, 5 :: nat]" 1 2 2 4]
  by simp

text \<open>
  C10: in every \<open>UnionFind\<close> reached from \<open>__init__\<close> by calls on registered elements,
  the parent map is a forest, so \<open>encontrar\<close> returns for every registered element.
  A call \<open>encontrar(x)\<close> returns a self-loop \<open>r\<close>, rewrites parent entries only to
  \<open>r\<close>, leaves a forest over the same elements with the same classes, and the
  representative \<open>encontrar\<close> returns for any registered \<open>y\<close> is the same before and
  after that call.
\<close>

theorem encontrar_conserva_particion:
  assumes "\<forall>c \<in> set cs. elementos_de c \<subseteq> set elementos"
    and "x \<in> set elementos" "y \<in> set elementos"
  shows "\<exists>uf r uf' s uf1 uf2.
           ejecutar (UnionFind_init elementos) cs = Some (Inr uf) \<and> bosque uf \<and>
           encontrar uf x = Some (Inr (r, uf')) \<and> padre uf' r = Some r \<and>
           (\<forall>z. padre uf' z = padre uf z \<or> padre uf' z = Some r) \<and>
           bosque uf' \<and> dom (padre uf') = set elementos \<and> clases uf' = clases uf \<and>
           encontrar uf y = Some (Inr (s, uf1)) \<and>
           encontrar uf' y = Some (Inr (s, uf2))"
proof -
  from ejecutar_init[OF assms(1)] obtain uf where
      e: "ejecutar (UnionFind_init elementos) cs = Some (Inr uf)" and bq: "bosque uf" and
      d: "dom (padre uf) = set elementos"
    by (elim exE conjE)
  have xd: "x \<in> dom (padre uf)" and yd: "y \<in> dom (padre uf)"
    using assms(2,3) d by simp_all
  from encontrar_clases[OF bq xd] obtain r uf' where
      ex: "encontrar uf x = Some (Inr (r, uf'))" and pr: "padre uf' r = Some r" and
      b': "bosque uf'" and d': "dom (padre uf') = dom (padre uf)" and
      rr: "rep uf' = rep uf" and c': "clases uf' = clases uf" and r: "r = rep uf x"
    by (elim exE conjE)
  have "raiz_de (padre uf) x r"
    unfolding r using bq xd by (rule raiz_de_rep)
  then have cmp: "\<forall>z. padre uf' z = padre uf z \<or> padre uf' z = Some r"
    using ex by (intro allI) (rule encontrar_solo_comprime)
  from encontrar_rep[OF bq yd] obtain uf1 where
      ey: "encontrar uf y = Some (Inr (rep uf y, uf1))"
    by (elim exE conjE)
  have yd': "y \<in> dom (padre uf')" using yd d' by simp
  from encontrar_rep[OF b' yd'] obtain uf2 where
      "encontrar uf' y = Some (Inr (rep uf' y, uf2))"
    by (elim exE conjE)
  then have ey': "encontrar uf' y = Some (Inr (rep uf y, uf2))"
    using rr by simp
  have d'': "dom (padre uf') = set elementos" using d d' by simp
  show ?thesis
    by (intro exI conjI) (rule e, rule bq, rule ex, rule pr, rule cmp, rule b', rule d'',
        rule c', rule ey, rule ey')
qed

theorem encontrar_conserva_particion_testigo:
  "\<exists>uf r uf' s uf1 uf2.
     ejecutar (UnionFind_init [1, 2, 3, 4, 5 :: nat]) [Unir 1 2, Unir 3 4, Unir 2 4]
       = Some (Inr uf) \<and> bosque uf \<and>
     encontrar uf 4 = Some (Inr (r, uf')) \<and> padre uf' r = Some r \<and>
     (\<forall>z. padre uf' z = padre uf z \<or> padre uf' z = Some r) \<and>
     bosque uf' \<and> dom (padre uf') = set [1, 2, 3, 4, 5] \<and> clases uf' = clases uf \<and>
     encontrar uf 3 = Some (Inr (s, uf1)) \<and>
     encontrar uf' 3 = Some (Inr (s, uf2))"
  using encontrar_conserva_particion[of "[Unir 1 2, Unir 3 4, Unir 2 4]" "[1, 2, 3, 4, 5 :: nat]" 4 3]
  by simp

section \<open>Minimum spanning trees\<close>

subsection \<open>Kruskal\<close>

text \<open>
  The \<open>for\<close> loop of \<open>algoritmo_kruskal\<close> over the sorted triples
  \<open>(peso, u, v)\<close>. It leaves through \<open>break\<close> as soon as the number of accepted edges
  equals \<open>len(grafo.nodes()) - 1\<close>, an integer comparison. The result is optional
  because \<open>unir\<close> is. The weights and the running \<open>peso_total\<close> are Python floats;
  they are modelled as real numbers, so the total of the model is the exact sum, without
  the rounding of the float additions. The list of accepted edges does not depend on it.
\<close>

fun kruskal_loop ::
  "'a grafo \<Rightarrow> (real \<times> 'a \<times> 'a) list \<Rightarrow> 'a UnionFind \<Rightarrow> ('a \<times> 'a \<times> real) list \<Rightarrow> real \<Rightarrow>
   (error + (('a \<times> 'a \<times> real) list \<times> real)) option" where
  "kruskal_loop grafo [] uf mst_aristas peso_total = Some (Inr (mst_aristas, peso_total))"
| "kruskal_loop grafo ((peso, u, v) # resto) uf mst_aristas peso_total =
     (case unir uf u v of
        None \<Rightarrow> None
      | Some (Inl e) \<Rightarrow> Some (Inl e)
      | Some (Inr (unidos, uf')) \<Rightarrow>
          if unidos then
            (let mst_aristas' = mst_aristas @ [(u, v, peso)];
                 peso_total' = peso_total + peso
             in if int (length mst_aristas') = int (length (nodes grafo)) - 1
                then Some (Inr (mst_aristas', peso_total'))
                else kruskal_loop grafo resto uf' mst_aristas' peso_total')
          else kruskal_loop grafo resto uf' mst_aristas peso_total)"

definition algoritmo_kruskal ::
  "'a::linorder grafo \<Rightarrow> (error + (('a \<times> 'a \<times> real) list \<times> real)) option" where
  "algoritmo_kruskal grafo =
     (if length (nodes grafo) = 0 then Some (Inr ([], 0))
      else (let aristas = sort (map (\<lambda>(u, v, peso). (peso, u, v)) (edges grafo));
                uf = UnionFind_init (nodes grafo)
            in kruskal_loop grafo aristas uf [] 0))"

subsection \<open>Prim\<close>

text \<open>
  The heap of \<open>algoritmo_prim\<close> holds tuples \<open>(peso, nodo_actual, nodo_anterior)\<close>.
  Only the seed \<open>(0, nodo_inicio, None)\<close> has no predecessor; it is alone in the heap
  when it is popped, so it is never compared with another tuple. \<open>agregar_vecinos\<close> is
  the inner \<open>for\<close> loop over the neighbours of the node just visited. As in Kruskal,
  \<open>peso_total\<close> is the exact sum of the weights, not the rounded float sum.
\<close>

fun agregar_vecinos ::
  "'a::linorder \<Rightarrow> ('a \<times> real) list \<Rightarrow> 'a set \<Rightarrow> (real \<times> 'a \<times> 'a option) list \<Rightarrow>
   (real \<times> 'a \<times> 'a option) list" where
  "agregar_vecinos nodo_actual [] visitados heap = heap"
| "agregar_vecinos nodo_actual ((vecino, peso_arista) # resto) visitados heap =
     (if vecino \<notin> visitados
      then agregar_vecinos nodo_actual resto visitados
             (heappush (<) heap (peso_arista, vecino, Some nodo_actual))
      else agregar_vecinos nodo_actual resto visitados heap)"

function prim_loop ::
  "'a::linorder grafo \<Rightarrow> (real \<times> 'a \<times> 'a option) list \<Rightarrow> 'a set \<Rightarrow>
   ('a \<times> 'a \<times> real) list \<Rightarrow> real \<Rightarrow> error + (('a \<times> 'a \<times> real) list \<times> real)" where
  "prim_loop grafo heap visitados mst_aristas peso_total =
     (if heap \<noteq> [] \<and> card visitados < length (nodes grafo) then
        (case heappop (<) heap of
           Inl e \<Rightarrow> Inl e
         | Inr ((peso, nodo_actual, nodo_anterior), heap1) \<Rightarrow>
             if nodo_actual \<in> visitados
             then prim_loop grafo heap1 visitados mst_aristas peso_total
             else (case neighbors grafo nodo_actual of
                     Inl e \<Rightarrow> Inl e
                   | Inr vecinos \<Rightarrow>
                       (case nodo_anterior of
                          None \<Rightarrow>
                            prim_loop grafo
                              (agregar_vecinos nodo_actual vecinos
                                 (insert nodo_actual visitados) heap1)
                              (insert nodo_actual visitados) mst_aristas peso_total
                        | Some anterior \<Rightarrow>
                            prim_loop grafo
                              (agregar_vecinos nodo_actual vecinos
                                 (insert nodo_actual visitados) heap1)
                              (insert nodo_actual visitados)
                              (mst_aristas @ [(anterior, nodo_actual, peso)])
                              (peso_total + peso))))
      else Inr (mst_aristas, peso_total))"
  by pat_completeness auto
termination
proof (relation "measures [\<lambda>(grafo, heap, visitados, mst_aristas, peso_total).
                              card (set (nodes grafo) - visitados),
                           \<lambda>(grafo, heap, visitados, mst_aristas, peso_total). length heap]",
       goal_cases)
  case 1
  show ?case by simp
next
  case (2 grafo heap visitados mst_aristas peso_total x2 x1 heap1 peso x2a nodo_actual nodo_anterior)
  then have "Suc (length heap1) = length heap"
    by (auto dest: length_heappop)
  then show ?case by simp
next
  case (3 grafo heap visitados mst_aristas peso_total x2 x1 heap1 peso x2a nodo_actual
          nodo_anterior vecinos)
  then have "nodo_actual \<in> set (nodes grafo)"
    by (auto simp: neighbors_def nodes_def split: option.splits dest: map_of_SomeD
             intro: rev_image_eqI)
  with 3 have "card (set (nodes grafo) - insert nodo_actual visitados)
               < card (set (nodes grafo) - visitados)"
    by (intro psubset_card_mono) auto
  then show ?case by simp
next
  case (4 grafo heap visitados mst_aristas peso_total x2 x1 heap1 peso x2a nodo_actual
          nodo_anterior vecinos anterior)
  then have "nodo_actual \<in> set (nodes grafo)"
    by (auto simp: neighbors_def nodes_def split: option.splits dest: map_of_SomeD
             intro: rev_image_eqI)
  with 4 have "card (set (nodes grafo) - insert nodo_actual visitados)
               < card (set (nodes grafo) - visitados)"
    by (intro psubset_card_mono) auto
  then show ?case by simp
qed

declare prim_loop.simps [simp del]

definition algoritmo_prim ::
  "'a::linorder grafo \<Rightarrow> 'a option \<Rightarrow> error + (('a \<times> 'a \<times> real) list \<times> real)" where
  "algoritmo_prim grafo nodo_inicio =
     (if length (nodes grafo) = 0 then Inr ([], 0)
      else (let nodo_inicio' = (case nodo_inicio of None \<Rightarrow> hd (nodes grafo) | Some n \<Rightarrow> n)
            in prim_loop grafo [(0, nodo_inicio', None)] {} [] 0))"

subsection \<open>Connected components\<close>

text \<open>
  Two nodes are adjacent when one is a key of the adjacency dictionary of the other;
  the component of a node holds the nodes joined to it by a walk.
\<close>

definition adyacentes :: "'a grafo \<Rightarrow> ('a \<times> 'a) set" where
  "adyacentes grafo = {(u, v). \<exists>nbrs. map_of grafo u = Some nbrs \<and> v \<in> fst ` set nbrs}"

definition componente :: "'a grafo \<Rightarrow> 'a \<Rightarrow> 'a set" where
  "componente grafo u = {v. (u, v) \<in> (adyacentes grafo)\<^sup>*}"

definition componentes :: "'a grafo \<Rightarrow> 'a set set" where
  "componentes grafo = componente grafo ` set (nodes grafo)"

definition conexo :: "'a grafo \<Rightarrow> bool" where
  "conexo grafo \<longleftrightarrow>
     (\<forall>u \<in> set (nodes grafo). \<forall>v \<in> set (nodes grafo). (u, v) \<in> (adyacentes grafo)\<^sup>*)"

lemma nodes_map_of: "u \<in> set (nodes grafo) \<longleftrightarrow> map_of grafo u \<noteq> None"
  by (simp add: nodes_def map_of_eq_None_iff)

lemma grafo_ok_distinct: "grafo_ok grafo \<Longrightarrow> distinct (nodes grafo)"
  by (simp add: grafo_ok_def nodes_def)

lemma grafo_ok_vecino:
  assumes "grafo_ok grafo" "map_of grafo u = Some nbrs" "(v, w) \<in> set nbrs"
  shows "\<exists>nbrs'. map_of grafo v = Some nbrs' \<and> (u, w) \<in> set nbrs'"
proof -
  from assms(2) have "(u, nbrs) \<in> set grafo" by (rule map_of_SomeD)
  with assms(1,3) have
    "case map_of grafo v of None \<Rightarrow> False | Some nbrs' \<Rightarrow> map_of nbrs' u = Some w"
    unfolding grafo_ok_def list_all_iff by fastforce
  then obtain nbrs' where "map_of grafo v = Some nbrs'" "map_of nbrs' u = Some w"
    by (cases "map_of grafo v") simp_all
  then show ?thesis by (auto dest: map_of_SomeD)
qed

lemma adyacentes_nodes:
  assumes "grafo_ok grafo" "(u, v) \<in> adyacentes grafo"
  shows "u \<in> set (nodes grafo) \<and> v \<in> set (nodes grafo)"
proof -
  from assms(2) obtain nbrs w where n: "map_of grafo u = Some nbrs" "(v, w) \<in> set nbrs"
    by (auto simp: adyacentes_def)
  from grafo_ok_vecino[OF assms(1) n] n(1) show ?thesis
    by (auto simp: nodes_map_of)
qed

lemma sym_adyacentes: "grafo_ok grafo \<Longrightarrow> sym (adyacentes grafo)"
proof (rule symI)
  fix u v assume ok: "grafo_ok grafo" and "(u, v) \<in> adyacentes grafo"
  then obtain nbrs w where n: "map_of grafo u = Some nbrs" "(v, w) \<in> set nbrs"
    by (auto simp: adyacentes_def)
  from grafo_ok_vecino[OF ok n] obtain nbrs' where
      "map_of grafo v = Some nbrs'" "(u, w) \<in> set nbrs'"
    by blast
  then show "(v, u) \<in> adyacentes grafo"
    unfolding adyacentes_def by force
qed

lemma componente_nodes:
  assumes "grafo_ok grafo" "s \<in> set (nodes grafo)"
  shows "componente grafo s \<subseteq> set (nodes grafo)"
proof
  fix v assume "v \<in> componente grafo s"
  then have "(s, v) \<in> (adyacentes grafo)\<^sup>*" by (simp add: componente_def)
  then show "v \<in> set (nodes grafo)"
    using assms(2) by (induction rule: rtrancl_induct) (auto dest: adyacentes_nodes[OF assms(1)])
qed

lemma componente_cerrada:
  assumes "s \<in> X" "\<forall>u \<in> X. \<forall>v. (u, v) \<in> adyacentes grafo \<longrightarrow> v \<in> X"
  shows "componente grafo s \<subseteq> X"
proof
  fix v assume "v \<in> componente grafo s"
  then have "(s, v) \<in> (adyacentes grafo)\<^sup>*" by (simp add: componente_def)
  then show "v \<in> X"
    using assms by (induction rule: rtrancl_induct) auto
qed

lemma componente_paso:
  "u \<in> componente grafo s \<Longrightarrow> (u, v) \<in> adyacentes grafo \<Longrightarrow> v \<in> componente grafo s"
  by (auto simp: componente_def intro: rtrancl_into_rtrancl)

subsection \<open>The number of edges Prim returns\<close>

lemma set_agregar_vecinos:
  "set (agregar_vecinos n vecinos visitados heap) =
     set heap \<union> {(w, x, Some n) | x w. (x, w) \<in> set vecinos \<and> x \<notin> visitados}"
proof (induction vecinos arbitrary: heap)
  case Nil
  show ?case by simp
next
  case (Cons par vecinos)
  obtain vecino peso_arista where par: "par = (vecino, peso_arista)" by (cases par)
  show ?case
  proof (cases "vecino \<in> visitados")
    case True
    then show ?thesis
      unfolding par by (simp add: Cons.IH) blast
  next
    case False
    then show ?thesis
      unfolding par by (simp add: Cons.IH set_heappush) blast
  qed
qed

lemma prim_loop_longitud:
  "grafo_ok grafo \<Longrightarrow> s \<in> set (nodes grafo) \<Longrightarrow>
         s \<in> visitados \<Longrightarrow> finite visitados \<Longrightarrow> visitados \<subseteq> componente grafo s \<Longrightarrow>
         \<forall>(w, v, a) \<in> set heap. v \<in> componente grafo s \<and> a \<noteq> None \<Longrightarrow>
         \<forall>u \<in> visitados. \<forall>v. (u, v) \<in> adyacentes grafo \<longrightarrow>
            v \<in> visitados \<or> v \<in> (\<lambda>(w, v, a). v) ` set heap \<Longrightarrow>
         length mst_aristas + 1 = card visitados \<Longrightarrow>
         \<exists>mst peso. prim_loop grafo heap visitados mst_aristas peso_total = Inr (mst, peso) \<and>
            length mst + 1 = card (componente grafo s)"
proof (induction grafo heap visitados mst_aristas peso_total rule: prim_loop.induct)
  case (1 grafo heap visitados mst_aristas peso_total)
  let ?C = "componente grafo s"
  note ok = "1.prems"(1) and s = "1.prems"(2) and p1 = "1.prems"(3) and p2 = "1.prems"(4)
    and p3 = "1.prems"(5) and p4 = "1.prems"(6) and p5 = "1.prems"(7) and p6 = "1.prems"(8)
  have CN: "?C \<subseteq> set (nodes grafo)" using ok s by (rule componente_nodes)
  have finC: "finite ?C" using CN by (rule finite_subset) simp
  show ?case
  proof (cases "heap \<noteq> [] \<and> card visitados < length (nodes grafo)")
    case False
    have res: "prim_loop grafo heap visitados mst_aristas peso_total = Inr (mst_aristas, peso_total)"
      using False by (subst prim_loop.simps) auto
    have "card visitados = card ?C"
    proof (cases "heap = []")
      case True
      with p5 have "\<forall>u \<in> visitados. \<forall>v. (u, v) \<in> adyacentes grafo \<longrightarrow> v \<in> visitados"
        by simp
      with p1 have "?C \<subseteq> visitados" by (rule componente_cerrada)
      with p3 show ?thesis by auto
    next
      case False
      with \<open>\<not> (heap \<noteq> [] \<and> card visitados < length (nodes grafo))\<close>
      have "length (nodes grafo) \<le> card visitados" by simp
      moreover have "card visitados \<le> card ?C"
        using p3 finC by (intro card_mono)
      moreover have "card ?C \<le> card (set (nodes grafo))"
        using CN by (intro card_mono) simp_all
      moreover have "card (set (nodes grafo)) = length (nodes grafo)"
        using grafo_ok_distinct[OF ok] by (rule distinct_card)
      ultimately show ?thesis by simp
    qed
    with res p6 show ?thesis by simp
  next
    case True
    then have ne: "heap \<noteq> []" by simp
    from heappop_nonempty[OF ne] obtain item heap1 where
        pop: "heappop (<) heap = Inr (item, heap1)"
      by blast
    obtain peso nodo_actual nodo_anterior where item: "item = (peso, nodo_actual, nodo_anterior)"
      by (cases item)
    from set_heappop[OF pop] have sh: "set heap = insert item (set heap1)" .
    from pop item have pop': "heappop (<) heap = Inr ((peso, nodo_actual, nodo_anterior), heap1)"
      by simp
    have inC: "nodo_actual \<in> ?C" and ant: "nodo_anterior \<noteq> None"
      using p4 sh item by auto
    have h1: "\<forall>(w, v, a) \<in> set heap1. v \<in> ?C \<and> a \<noteq> None"
      using p4 sh by auto
    show ?thesis
    proof (cases "nodo_actual \<in> visitados")
      case vis: True
      have p5': "\<forall>u \<in> visitados. \<forall>v. (u, v) \<in> adyacentes grafo \<longrightarrow>
                  v \<in> visitados \<or> v \<in> (\<lambda>(w, v, a). v) ` set heap1"
      proof (intro ballI allI impI)
        fix u v assume "u \<in> visitados" "(u, v) \<in> adyacentes grafo"
        with p5 have "v \<in> visitados \<or> v \<in> (\<lambda>(w, v, a). v) ` set heap" by blast
        then show "v \<in> visitados \<or> v \<in> (\<lambda>(w, v, a). v) ` set heap1"
          unfolding sh item using vis by auto
      qed
      have "\<exists>mst peso. prim_loop grafo heap1 visitados mst_aristas peso_total = Inr (mst, peso) \<and>
              length mst + 1 = card ?C"
        using True pop item vis
        by (intro "1.IH"(1)[OF True pop' refl refl refl vis ok s p1 p2 p3 h1 p5' p6])
      moreover have "prim_loop grafo heap visitados mst_aristas peso_total
                     = prim_loop grafo heap1 visitados mst_aristas peso_total"
        using True pop item vis by (subst prim_loop.simps) simp
      ultimately show ?thesis by simp
    next
      case nvis: False
      from inC CN have "nodo_actual \<in> set (nodes grafo)" by blast
      then obtain vecinos where mv: "map_of grafo nodo_actual = Some vecinos"
        by (auto simp: nodes_map_of)
      then have nb: "neighbors grafo nodo_actual = Inr vecinos"
        by (simp add: neighbors_def)
      from ant obtain anterior where a: "nodo_anterior = Some anterior" by blast
      let ?vis = "insert nodo_actual visitados"
      let ?heap2 = "agregar_vecinos nodo_actual vecinos ?vis heap1"
      let ?mst = "mst_aristas @ [(anterior, nodo_actual, peso)]"
      have q1: "s \<in> ?vis" using p1 by simp
      have q2: "finite ?vis" using p2 by simp
      have q3: "?vis \<subseteq> ?C" using p3 inC by simp
      have q4: "\<forall>(w, v, a) \<in> set ?heap2. v \<in> ?C \<and> a \<noteq> None"
      proof -
        have "x \<in> ?C" if "(x, w) \<in> set vecinos" for x w
        proof -
          from that mv have "(nodo_actual, x) \<in> adyacentes grafo"
            unfolding adyacentes_def by force
          with inC show ?thesis by (rule componente_paso)
        qed
        with h1 show ?thesis by (auto simp: set_agregar_vecinos)
      qed
      have q5: "\<forall>u \<in> ?vis. \<forall>v. (u, v) \<in> adyacentes grafo \<longrightarrow>
                  v \<in> ?vis \<or> v \<in> (\<lambda>(w, v, a). v) ` set ?heap2"
      proof (intro ballI allI impI)
        fix u v assume u: "u \<in> ?vis" and uv: "(u, v) \<in> adyacentes grafo"
        show "v \<in> ?vis \<or> v \<in> (\<lambda>(w, v, a). v) ` set ?heap2"
        proof (cases "u = nodo_actual")
          case True
          with uv mv obtain w where "(v, w) \<in> set vecinos"
            by (auto simp: adyacentes_def)
          then show ?thesis
            by (cases "v \<in> ?vis") (force simp: set_agregar_vecinos)+
        next
          case False
          with u have "u \<in> visitados" by simp
          with p5 uv have "v \<in> visitados \<or> v \<in> (\<lambda>(w, v, a). v) ` set heap" by blast
          then have "v \<in> ?vis \<or> v \<in> (\<lambda>(w, v, a). v) ` set heap1"
            unfolding sh item by auto
          moreover have "set heap1 \<subseteq> set ?heap2"
            by (simp add: set_agregar_vecinos)
          ultimately show ?thesis by blast
        qed
      qed
      have q6: "length ?mst + 1 = card ?vis"
        using p2 p6 nvis by simp
      have "\<exists>mst peso'. prim_loop grafo ?heap2 ?vis ?mst (peso_total + peso) = Inr (mst, peso') \<and>
              length mst + 1 = card ?C"
        by (rule "1.IH"(3)[OF True pop' refl refl refl nvis nb a ok s q1 q2 q3 q4 q5 q6])
      moreover have "prim_loop grafo heap visitados mst_aristas peso_total
                     = prim_loop grafo ?heap2 ?vis ?mst (peso_total + peso)"
        using True pop item nvis nb a by (subst prim_loop.simps) simp
      ultimately show ?thesis by simp
    qed
  qed
qed

lemma componente_refl: "s \<in> componente grafo s"
  by (simp add: componente_def)

lemma prim_longitud:
  assumes ok: "grafo_ok grafo" and s: "s \<in> set (nodes grafo)"
  shows "\<exists>mst peso. algoritmo_prim grafo (Some s) = Inr (mst, peso) \<and>
           length mst + 1 = card (componente grafo s)"
proof -
  let ?C = "componente grafo s"
  from s obtain vecinos where mv: "map_of grafo s = Some vecinos"
    by (auto simp: nodes_map_of)
  then have nb: "neighbors grafo s = Inr vecinos"
    by (simp add: neighbors_def)
  let ?heap = "agregar_vecinos s vecinos {s} []"
  from s have ne: "length (nodes grafo) \<noteq> 0" by auto
  have pop: "heappop (<) [(0 :: real, s, None :: 'a option)] = Inr ((0, s, None), [])"
    by (simp add: heappop_def)
  have "prim_loop grafo [(0, s, None)] {} [] 0 = prim_loop grafo ?heap {s} [] 0"
    using ne pop nb by (subst prim_loop.simps) simp
  then have alg: "algoritmo_prim grafo (Some s) = prim_loop grafo ?heap {s} [] 0"
    using ne by (simp add: algoritmo_prim_def)
  have ady: "(s, x) \<in> adyacentes grafo" if "(x, w) \<in> set vecinos" for x w
    using that mv unfolding adyacentes_def by force
  have q3: "{s} \<subseteq> ?C" by (simp add: componente_refl)
  have "x \<in> ?C" if "(x, w) \<in> set vecinos" for x w
    using componente_refl ady[OF that] by (rule componente_paso)
  then have q4: "\<forall>(w, v, a) \<in> set ?heap. v \<in> ?C \<and> a \<noteq> None"
    by (auto simp: set_agregar_vecinos)
  have q5: "\<forall>u \<in> {s}. \<forall>v. (u, v) \<in> adyacentes grafo \<longrightarrow>
              v \<in> {s} \<or> v \<in> (\<lambda>(w, v, a). v) ` set ?heap"
  proof (intro ballI allI impI)
    fix u v assume "u \<in> {s}" "(u, v) \<in> adyacentes grafo"
    with mv obtain w where "(v, w) \<in> set vecinos"
      by (auto simp: adyacentes_def)
    then show "v \<in> {s} \<or> v \<in> (\<lambda>(w, v, a). v) ` set ?heap"
      by (cases "v = s") (force simp: set_agregar_vecinos)+
  qed
  have "\<exists>mst peso. prim_loop grafo ?heap {s} [] 0 = Inr (mst, peso) \<and>
          length mst + 1 = card ?C"
    by (rule prim_loop_longitud[OF ok s _ _ q3 q4 q5]) simp_all
  with alg show ?thesis by simp
qed

lemma conexo_componente:
  assumes "grafo_ok grafo" "conexo grafo" "s \<in> set (nodes grafo)"
  shows "componente grafo s = set (nodes grafo)"
proof
  show "componente grafo s \<subseteq> set (nodes grafo)"
    using assms(1,3) by (rule componente_nodes)
  show "set (nodes grafo) \<subseteq> componente grafo s"
    using assms(2,3) by (auto simp: conexo_def componente_def)
qed

lemma conexo_componentes:
  assumes "grafo_ok grafo" "conexo grafo" "nodes grafo \<noteq> []"
  shows "card (componentes grafo) = 1"
proof -
  have "componentes grafo = (\<lambda>s. set (nodes grafo)) ` set (nodes grafo)"
    unfolding componentes_def
    by (rule image_cong[OF refl]) (rule conexo_componente[OF assms(1,2)])
  also have "\<dots> = {set (nodes grafo)}"
    using assms(3) by (cases "nodes grafo") auto
  finally show ?thesis by simp
qed

subsection \<open>The number of edges Kruskal returns\<close>

lemma card_image_le:
  assumes "finite D" "\<And>a b. a \<in> D \<Longrightarrow> b \<in> D \<Longrightarrow> f a = f b \<Longrightarrow> g a = g b"
  shows "card (g ` D) \<le> card (f ` D)"
  using assms
proof (induction D rule: finite_induct)
  case empty
  show ?case by simp
next
  case (insert x D)
  have IH: "card (g ` D) \<le> card (f ` D)"
  proof (rule insert.IH)
    fix a b assume "a \<in> D" "b \<in> D" "f a = f b"
    then show "g a = g b" by (intro insert.prems) simp_all
  qed
  have fin: "finite (f ` D)" "finite (g ` D)" using insert.hyps(1) by simp_all
  show ?case
  proof (cases "g x \<in> g ` D")
    case True
    then have "g ` insert x D = g ` D" by blast
    then have "card (g ` insert x D) = card (g ` D)" by (rule arg_cong)
    also note IH
    also have "card (f ` D) \<le> card (f ` insert x D)"
      using fin(1) by (intro card_mono) auto
    finally show ?thesis .
  next
    case False
    have nf: "f x \<notin> f ` D"
    proof
      assume "f x \<in> f ` D"
      then obtain a where a: "a \<in> D" and fa: "f x = f a" by blast
      have "g x = g a" using _ _ fa by (rule insert.prems) (simp_all add: a)
      with a False show False by blast
    qed
    have "card (g ` insert x D) = Suc (card (g ` D))"
      using False fin(2) by simp
    moreover have "card (f ` insert x D) = Suc (card (f ` D))"
      using nf fin(1) by simp
    ultimately show ?thesis using IH by (simp only: Suc_le_mono)
  qed
qed

lemma card_image_eq:
  assumes "finite D" "\<And>a b. a \<in> D \<Longrightarrow> b \<in> D \<Longrightarrow> f a = f b \<longleftrightarrow> g a = g b"
  shows "card (f ` D) = card (g ` D)"
proof (rule antisym)
  show "card (f ` D) \<le> card (g ` D)"
    using assms(1) by (rule card_image_le) (rule iffD2[OF assms(2)])
  show "card (g ` D) \<le> card (f ` D)"
    using assms(1) by (rule card_image_le) (rule iffD1[OF assms(2)])
qed

lemma unir_cuenta:
  assumes b: "bosque uf" and x: "x \<in> dom (padre uf)" and y: "y \<in> dom (padre uf)"
    and fin: "finite (dom (padre uf))"
  shows "\<exists>unidos uf'. unir uf x y = Some (Inr (unidos, uf')) \<and> bosque uf' \<and>
           dom (padre uf') = dom (padre uf) \<and>
           clases uf' = (clases uf \<union> {(x, y), (y, x)})\<^sup>+ \<and>
           card (rep uf' ` dom (padre uf)) + (if unidos then 1 else 0)
             = card (rep uf ` dom (padre uf))"
proof -
  let ?D = "dom (padre uf)"
  let ?rx = "rep uf x" and ?ry = "rep uf y"
  from unir_rep[OF b x y] obtain uf' where
      u: "unir uf x y = Some (Inr (?rx \<noteq> ?ry, uf'))" and b': "bosque uf'" and
      d: "dom (padre uf') = ?D" and
      eq: "\<forall>a \<in> ?D. \<forall>c \<in> ?D.
              rep uf' a = rep uf' c \<longleftrightarrow>
                rep uf a = rep uf c \<or> (rep uf a \<in> {?rx, ?ry} \<and> rep uf c \<in> {?rx, ?ry})"
    by (elim exE conjE)
  from unir_clases[OF b x y] obtain uf'' where
      u': "unir uf x y = Some (Inr ((x, y) \<notin> clases uf, uf''))" and
      c: "clases uf'' = (clases uf \<union> {(x, y), (y, x)})\<^sup>+"
    by (elim exE conjE)
  from u u' have "uf'' = uf'" by simp
  with c have c': "clases uf' = (clases uf \<union> {(x, y), (y, x)})\<^sup>+" by simp
  have cnt: "card (rep uf' ` ?D) + (if ?rx \<noteq> ?ry then 1 else 0) = card (rep uf ` ?D)"
  proof (cases "?rx = ?ry")
    case True
    have "rep uf' a = rep uf' c \<longleftrightarrow> rep uf a = rep uf c" if "a \<in> ?D" "c \<in> ?D" for a c
    proof -
      from eq that have "rep uf' a = rep uf' c \<longleftrightarrow>
          rep uf a = rep uf c \<or> (rep uf a \<in> {?rx, ?ry} \<and> rep uf c \<in> {?rx, ?ry})"
        by blast
      also have "\<dots> \<longleftrightarrow> rep uf a = rep uf c"
        using True by auto
      finally show ?thesis .
    qed
    with fin have "card (rep uf' ` ?D) = card (rep uf ` ?D)" by (rule card_image_eq)
    with True show ?thesis by simp
  next
    case False
    define g where "g a = (if rep uf a = ?ry then ?rx else rep uf a)" for a
    have "rep uf' a = rep uf' c \<longleftrightarrow> g a = g c" if "a \<in> ?D" "c \<in> ?D" for a c
    proof -
      from eq that have "rep uf' a = rep uf' c \<longleftrightarrow>
          rep uf a = rep uf c \<or> (rep uf a \<in> {?rx, ?ry} \<and> rep uf c \<in> {?rx, ?ry})"
        by blast
      also have "\<dots> \<longleftrightarrow> g a = g c"
        using False unfolding g_def by auto
      finally show "rep uf' a = rep uf' c \<longleftrightarrow> g a = g c" .
    qed
    with fin have 1: "card (rep uf' ` ?D) = card (g ` ?D)" by (rule card_image_eq)
    have 2: "g ` ?D = rep uf ` ?D - {?ry}"
    proof
      show "g ` ?D \<subseteq> rep uf ` ?D - {?ry}"
        using False x unfolding g_def by auto
      show "rep uf ` ?D - {?ry} \<subseteq> g ` ?D"
      proof
        fix r assume "r \<in> rep uf ` ?D - {?ry}"
        then obtain a where "a \<in> ?D" "r = rep uf a" "rep uf a \<noteq> ?ry" by blast
        then have "g a = r" by (simp add: g_def)
        with \<open>a \<in> ?D\<close> show "r \<in> g ` ?D" by blast
      qed
    qed
    have "?ry \<in> rep uf ` ?D" using y by blast
    moreover have "finite (rep uf ` ?D)" using fin by simp
    ultimately have "card (rep uf ` ?D - {?ry}) + 1 = card (rep uf ` ?D)"
      by (metis One_nat_def Suc_eq_plus1 card_Suc_Diff1)
    with 1 2 False show ?thesis by simp
  qed
  show ?thesis
    by (intro exI conjI) (rule u, rule b', rule d, rule c', rule cnt)
qed

lemma trancl_Un_trancl: "(A\<^sup>+ \<union> B)\<^sup>+ = (A \<union> B)\<^sup>+"
proof (rule trancl_eq_trancl)
  have "A\<^sup>+ \<subseteq> (A \<union> B)\<^sup>+" by (rule trancl_mono_subset) simp
  moreover have "B \<subseteq> (A \<union> B)\<^sup>+" by (rule subset_trancl) simp
  ultimately show "A\<^sup>+ \<union> B \<subseteq> (A \<union> B)\<^sup>+" by simp
  have "A \<union> B \<subseteq> A\<^sup>+ \<union> B" by auto
  then show "A \<union> B \<subseteq> (A\<^sup>+ \<union> B)\<^sup>+" by (rule subset_trancl)
qed

text \<open>The pairs of nodes of a list of triples \<open>(peso, u, v)\<close>.\<close>

definition pares :: "(real \<times> 'a \<times> 'a) list \<Rightarrow> ('a \<times> 'a) set" where
  "pares aristas = (\<lambda>(peso, u, v). (u, v)) ` set aristas"

lemma pares_Nil: "pares [] = {}"
  by (simp add: pares_def)

lemma pares_Cons: "pares ((peso, u, v) # resto) = insert (u, v) (pares resto)"
  by (simp add: pares_def)

lemma kruskal_loop_ok:
  "bosque uf \<Longrightarrow> dom (padre uf) = set (nodes grafo) \<Longrightarrow>
   pares aristas \<subseteq> set (nodes grafo) \<times> set (nodes grafo) \<Longrightarrow>
   clases uf = (Id_on (set (nodes grafo)) \<union> H \<union> H\<inverse>)\<^sup>+ \<Longrightarrow>
   length mst_aristas + card (rep uf ` set (nodes grafo)) = length (nodes grafo) \<Longrightarrow>
   \<exists>mst peso uf' H'.
      kruskal_loop grafo aristas uf mst_aristas peso_total = Some (Inr (mst, peso)) \<and>
      bosque uf' \<and> dom (padre uf') = set (nodes grafo) \<and>
      clases uf' = (Id_on (set (nodes grafo)) \<union> H' \<union> H'\<inverse>)\<^sup>+ \<and>
      H' \<subseteq> H \<union> pares aristas \<and>
      (H' = H \<union> pares aristas \<or> card (rep uf' ` set (nodes grafo)) = 1) \<and>
      length mst + card (rep uf' ` set (nodes grafo)) = length (nodes grafo)"
proof (induction aristas arbitrary: uf mst_aristas peso_total H)
  case Nil
  have "kruskal_loop grafo [] uf mst_aristas peso_total = Some (Inr (mst_aristas, peso_total))"
    by simp
  moreover have "H \<subseteq> H \<union> pares []" "H = H \<union> pares []"
    by (simp_all add: pares_Nil)
  ultimately show ?case
    using Nil.prems(1,2,4,5)
    by (intro exI[of _ mst_aristas] exI[of _ peso_total] exI[of _ uf] exI[of _ H]) simp
next
  case (Cons arista resto)
  let ?D = "set (nodes grafo)"
  obtain peso u v where arista: "arista = (peso, u, v)" by (cases arista)
  have uv: "u \<in> dom (padre uf)" "v \<in> dom (padre uf)" and
       rs: "pares resto \<subseteq> ?D \<times> ?D"
    using Cons.prems(2,3) by (simp_all add: arista pares_Cons)
  have fin: "finite (dom (padre uf))" using Cons.prems(2) by simp
  from unir_cuenta[OF Cons.prems(1) uv fin] obtain unidos uf1 where
      un: "unir uf u v = Some (Inr (unidos, uf1))" and b1: "bosque uf1" and
      d1: "dom (padre uf1) = dom (padre uf)" and
      c1: "clases uf1 = (clases uf \<union> {(u, v), (v, u)})\<^sup>+" and
      n1: "card (rep uf1 ` dom (padre uf)) + (if unidos then 1 else 0)
             = card (rep uf ` dom (padre uf))"
    by (elim exE conjE)
  let ?H1 = "insert (u, v) H"
  have d1': "dom (padre uf1) = ?D" using d1 Cons.prems(2) by simp
  have "clases uf1 = ((Id_on ?D \<union> H \<union> H\<inverse>) \<union> {(u, v), (v, u)})\<^sup>+"
    unfolding c1 Cons.prems(4) by (rule trancl_Un_trancl)
  also have "(Id_on ?D \<union> H \<union> H\<inverse>) \<union> {(u, v), (v, u)} = Id_on ?D \<union> ?H1 \<union> ?H1\<inverse>"
    by auto
  finally have c1': "clases uf1 = (Id_on ?D \<union> ?H1 \<union> ?H1\<inverse>)\<^sup>+" .
  have n1': "card (rep uf1 ` ?D) + (if unidos then 1 else 0) = card (rep uf ` ?D)"
    using n1 Cons.prems(2) by simp
  have H1: "?H1 \<union> pares resto = H \<union> pares (arista # resto)"
    by (simp add: arista pares_Cons)
  let ?mst1 = "mst_aristas @ [(u, v, peso)]"
  show ?case
  proof (cases "unidos \<and> int (length ?mst1) = int (length (nodes grafo)) - 1")
    case True
    have res: "kruskal_loop grafo (arista # resto) uf mst_aristas peso_total
               = Some (Inr (?mst1, peso_total + peso))"
      using un True by (simp add: arista Let_def)
    have cnt: "length ?mst1 + card (rep uf1 ` ?D) = length (nodes grafo)"
      using n1' True Cons.prems(5) by simp
    with True have one: "card (rep uf1 ` ?D) = 1" by simp
    have sub: "?H1 \<subseteq> H \<union> pares (arista # resto)"
      using H1 by blast
    show ?thesis
      by (intro exI conjI) (rule res, rule b1, rule d1', rule c1', rule sub, rule disjI2,
          rule one, rule cnt)
  next
    case False
    define mst2 where "mst2 = (if unidos then ?mst1 else mst_aristas)"
    define peso2 where "peso2 = (if unidos then peso_total + peso else peso_total)"
    have res: "kruskal_loop grafo (arista # resto) uf mst_aristas peso_total
               = kruskal_loop grafo resto uf1 mst2 peso2"
      using un False by (simp add: arista Let_def mst2_def peso2_def)
    have cnt: "length mst2 + card (rep uf1 ` ?D) = length (nodes grafo)"
      using n1' Cons.prems(5) by (simp add: mst2_def split: if_splits)
    from Cons.IH[OF b1 d1' rs c1' cnt, of peso2] obtain mst peso' uf' H' where
        r: "kruskal_loop grafo resto uf1 mst2 peso2 = Some (Inr (mst, peso'))" and
        b': "bosque uf'" and d': "dom (padre uf') = ?D" and
        c': "clases uf' = (Id_on ?D \<union> H' \<union> H'\<inverse>)\<^sup>+" and
        s': "H' \<subseteq> ?H1 \<union> pares resto" and
        e': "H' = ?H1 \<union> pares resto \<or> card (rep uf' ` ?D) = 1" and
        n': "length mst + card (rep uf' ` ?D) = length (nodes grafo)"
      by (elim exE conjE)
    from r res have res': "kruskal_loop grafo (arista # resto) uf mst_aristas peso_total
               = Some (Inr (mst, peso'))" by simp
    from s' H1 have s'': "H' \<subseteq> H \<union> pares (arista # resto)" by simp
    from e' H1 have e'': "H' = H \<union> pares (arista # resto) \<or> card (rep uf' ` ?D) = 1" by simp
    show ?thesis
      by (intro exI conjI) (rule res', rule b', rule d', rule c', rule s'', rule e'', rule n')
  qed
qed

lemma edges_from_en_grafo:
  "(u, v, w) \<in> set (edges_from grafo seen) \<Longrightarrow> \<exists>nbrs. (u, nbrs) \<in> set grafo \<and> (v, w) \<in> set nbrs"
  by (induction grafo seen rule: edges_from.induct) auto

lemma edges_from_cubre:
  "distinct (map fst grafo) \<Longrightarrow> (u, nu) \<in> set grafo \<Longrightarrow> (v, nv) \<in> set grafo \<Longrightarrow>
   (v, w) \<in> set nu \<Longrightarrow> (u, w') \<in> set nv \<Longrightarrow> u \<notin> seen \<Longrightarrow> v \<notin> seen \<Longrightarrow>
   (u, v, w) \<in> set (edges_from grafo seen) \<or> (v, u, w') \<in> set (edges_from grafo seen)"
proof (induction grafo seen rule: edges_from.induct)
  case (1 seen)
  then show ?case by simp
next
  case (2 n nbrs resto seen)
  from "2.prems"(1) have d: "distinct (map fst resto)" and n: "n \<notin> fst ` set resto"
    by simp_all
  show ?case
  proof (cases "n = u")
    case True
    with "2.prems"(2) n have "nu = nbrs" by force
    with True "2.prems"(4,7) have "(u, v, w) \<in> set (edges_from ((n, nbrs) # resto) seen)"
      by force
    then show ?thesis ..
  next
    case nu: False
    show ?thesis
    proof (cases "n = v")
      case True
      with "2.prems"(3) n have "nv = nbrs" by force
      with True "2.prems"(5,6) have "(v, u, w') \<in> set (edges_from ((n, nbrs) # resto) seen)"
        by force
      then show ?thesis ..
    next
      case False
      with nu "2.prems"(2,3) have "(u, nu) \<in> set resto" "(v, nv) \<in> set resto" by auto
      from "2.IH"[OF d this "2.prems"(4,5)] nu False "2.prems"(6,7)
      have "(u, v, w) \<in> set (edges_from resto (insert n seen)) \<or>
            (v, u, w') \<in> set (edges_from resto (insert n seen))"
        by simp
      then show ?thesis by auto
    qed
  qed
qed

lemma pares_edges:
  assumes ok: "grafo_ok grafo"
  shows "(\<lambda>(u, v, w). (u, v)) ` set (edges grafo) \<union> ((\<lambda>(u, v, w). (u, v)) ` set (edges grafo))\<inverse>
         = adyacentes grafo"
proof -
  let ?P = "(\<lambda>(u, v, w). (u, v)) ` set (edges grafo)"
  from ok have d: "distinct (map fst grafo)" by (simp add: grafo_ok_def)
  have sub: "?P \<subseteq> adyacentes grafo"
  proof
    fix p assume "p \<in> ?P"
    then obtain u v w where p: "p = (u, v)" and e: "(u, v, w) \<in> set (edges_from grafo {})"
      by (auto simp: edges_def)
    from edges_from_en_grafo[OF e] obtain nbrs where
        "(u, nbrs) \<in> set grafo" "(v, w) \<in> set nbrs"
      by blast
    with d have "map_of grafo u = Some nbrs" "v \<in> fst ` set nbrs"
      by (auto intro: rev_image_eqI)
    then show "p \<in> adyacentes grafo"
      unfolding p adyacentes_def by blast
  qed
  have "?P\<inverse> \<subseteq> adyacentes grafo"
    using sub sym_adyacentes[OF ok] by (auto dest: symD)
  moreover have "adyacentes grafo \<subseteq> ?P \<union> ?P\<inverse>"
  proof
    fix p assume "p \<in> adyacentes grafo"
    then obtain u v nu w where p: "p = (u, v)" and mu: "map_of grafo u = Some nu"
        and vw: "(v, w) \<in> set nu"
      by (auto simp: adyacentes_def)
    from grafo_ok_vecino[OF ok mu vw] obtain nv where
        mv: "map_of grafo v = Some nv" and uw: "(u, w) \<in> set nv"
      by blast
    from mu mv have "(u, nu) \<in> set grafo" "(v, nv) \<in> set grafo"
      by (auto dest: map_of_SomeD)
    from edges_from_cubre[OF d this vw uw, of "{}"]
    have "(u, v, w) \<in> set (edges grafo) \<or> (v, u, w) \<in> set (edges grafo)"
      by (simp add: edges_def)
    then show "p \<in> ?P \<union> ?P\<inverse>"
      unfolding p by force
  qed
  ultimately show ?thesis using sub by blast
qed

lemma pares_sort_edges:
  "pares (sort (map (\<lambda>(u, v, peso). (peso, u, v)) (edges grafo)))
   = (\<lambda>(u, v, w). (u, v)) ` set (edges grafo)"
proof -
  have "set (sort (map (\<lambda>(u, v, peso). (peso, u, v)) (edges grafo)))
        = (\<lambda>(u, v, peso). (peso, u, v)) ` set (edges grafo)"
    by simp
  then have "pares (sort (map (\<lambda>(u, v, peso). (peso, u, v)) (edges grafo)))
        = (\<lambda>(peso, u, v). (u, v)) ` (\<lambda>(u, v, peso). (peso, u, v)) ` set (edges grafo)"
    by (simp only: pares_def)
  also have "\<dots> = (\<lambda>(u, v, w). (u, v)) ` set (edges grafo)"
    unfolding image_image by (rule image_cong) auto
  finally show ?thesis .
qed

lemma componente_eq_iff:
  assumes "grafo_ok grafo"
  shows "componente grafo a = componente grafo b \<longleftrightarrow> (a, b) \<in> (adyacentes grafo)\<^sup>*"
proof
  assume "componente grafo a = componente grafo b"
  moreover have "b \<in> componente grafo b" by (rule componente_refl)
  ultimately have "b \<in> componente grafo a" by simp
  then show "(a, b) \<in> (adyacentes grafo)\<^sup>*" by (simp add: componente_def)
next
  let ?R = "adyacentes grafo"
  assume ab: "(a, b) \<in> ?R\<^sup>*"
  have "sym (?R\<^sup>*)" using sym_adyacentes[OF assms] by (rule sym_rtrancl)
  then have ba: "(b, a) \<in> ?R\<^sup>*" using ab by (rule symD)
  show "componente grafo a = componente grafo b"
    unfolding componente_def using ab ba by (auto intro: rtrancl_trans)
qed

lemma r_into_rtrancl_subset: "R \<subseteq> R\<^sup>*"
  by (rule subsetI) (auto)

lemma rep_init: "a \<in> set elementos \<Longrightarrow> rep (UnionFind_init elementos) a = a"
  by (rule rep_eqI) (simp add: raiz_de_init)

lemma kruskal_longitud:
  assumes ok: "grafo_ok grafo"
  shows "\<exists>mst peso. algoritmo_kruskal grafo = Some (Inr (mst, peso)) \<and>
           length mst + card (componentes grafo) = length (nodes grafo)"
proof (cases "nodes grafo = []")
  case True
  then show ?thesis
    by (simp add: algoritmo_kruskal_def componentes_def)
next
  case False
  let ?D = "set (nodes grafo)"
  let ?R = "adyacentes grafo"
  let ?P = "(\<lambda>(u, v, w). (u, v)) ` set (edges grafo)"
  let ?aristas = "sort (map (\<lambda>(u, v, peso). (peso, u, v)) (edges grafo))"
  let ?i = "UnionFind_init (nodes grafo)"
  have PR: "?P \<union> ?P\<inverse> = ?R" using ok by (rule pares_edges)
  have pa: "pares ?aristas = ?P" by (rule pares_sort_edges)
  have alg: "algoritmo_kruskal grafo = kruskal_loop grafo ?aristas ?i [] 0"
    using False by (simp add: algoritmo_kruskal_def)
  have h1: "bosque ?i" by (rule bosque_init)
  have h2: "dom (padre ?i) = ?D" by (rule dom_padre_init)
  have PsubR: "?P \<subseteq> ?R" and PinvsubR: "?P\<inverse> \<subseteq> ?R"
    unfolding PR[symmetric] by (rule Un_upper1, rule Un_upper2)
  have h3: "pares ?aristas \<subseteq> ?D \<times> ?D"
    unfolding pa
  proof
    fix p assume "p \<in> ?P"
    with PsubR have pR: "p \<in> ?R" ..
    obtain u v where p: "p = (u, v)" by (cases p)
    from adyacentes_nodes[OF ok pR[unfolded p]] show "p \<in> ?D \<times> ?D"
      unfolding p by simp
  qed
  have "(Id_on ?D)\<^sup>+ = Id_on ?D"
    by (rule trancl_id) (rule trans_Id_on)
  then have h4: "clases ?i = (Id_on ?D \<union> {} \<union> {}\<inverse>)\<^sup>+"
    by (simp add: clases_init)
  have "rep ?i ` ?D = ?D"
    by (simp add: rep_init)
  moreover have "card ?D = length (nodes grafo)"
    using grafo_ok_distinct[OF ok] by (rule distinct_card)
  ultimately have h5: "length ([] :: ('a \<times> 'a \<times> real) list) + card (rep ?i ` ?D) = length (nodes grafo)"
    by simp
  from kruskal_loop_ok[OF h1 h2 h3 h4 h5, of 0] obtain mst peso uf' H' where
      r: "kruskal_loop grafo ?aristas ?i [] 0 = Some (Inr (mst, peso))" and
      b': "bosque uf'" and d': "dom (padre uf') = ?D" and
      c': "clases uf' = (Id_on ?D \<union> H' \<union> H'\<inverse>)\<^sup>+" and
      s': "H' \<subseteq> {} \<union> pares ?aristas" and
      e': "H' = {} \<union> pares ?aristas \<or> card (rep uf' ` ?D) = 1" and
      n': "length mst + card (rep uf' ` ?D) = length (nodes grafo)"
    by (elim exE conjE)
  have HP: "H' \<subseteq> ?P" using s' pa by simp
  have cl: "(a, b) \<in> clases uf' \<longleftrightarrow> rep uf' a = rep uf' b" if "a \<in> ?D" "b \<in> ?D" for a b
    using that by (simp add: clases_rep[OF b'] d')
  have "H' \<subseteq> ?R" using HP PsubR by (rule subset_trans)
  moreover have "H'\<inverse> \<subseteq> ?R"
  proof -
    from HP have "H'\<inverse> \<subseteq> ?P\<inverse>" by (simp only: converse_mono)
    then show ?thesis using PinvsubR by (rule subset_trans)
  qed
  moreover have "?R \<subseteq> ?R\<^sup>*" by (rule r_into_rtrancl_subset)
  moreover have "Id_on ?D \<subseteq> ?R\<^sup>*"
  proof
    fix p assume "p \<in> Id_on ?D"
    then obtain a where "p = (a, a)" by (rule Id_onE)
    then show "p \<in> ?R\<^sup>*" by simp
  qed
  ultimately have "Id_on ?D \<union> H' \<union> H'\<inverse> \<subseteq> ?R\<^sup>*"
    by (meson Un_least subset_trans)
  then have "(Id_on ?D \<union> H' \<union> H'\<inverse>)\<^sup>+ \<subseteq> (?R\<^sup>*)\<^sup>+"
    by (rule trancl_mono_subset)
  then have cR: "clases uf' \<subseteq> ?R\<^sup>*"
    unfolding c' by simp
  have A: "componente grafo a = componente grafo b"
    if "a \<in> ?D" "b \<in> ?D" "rep uf' a = rep uf' b" for a b
  proof -
    from that have "(a, b) \<in> clases uf'" by (simp add: cl)
    with cR have "(a, b) \<in> ?R\<^sup>*" by blast
    then show ?thesis by (simp add: componente_eq_iff[OF ok])
  qed
  have fin: "finite ?D" by simp
  have "card (rep uf' ` ?D) = card (componente grafo ` ?D)"
    using e'
  proof
    assume "H' = {} \<union> pares ?aristas"
    then have H': "H' = ?P" using pa by simp
    have B: "rep uf' a = rep uf' b"
      if "a \<in> ?D" "b \<in> ?D" "componente grafo a = componente grafo b" for a b
    proof -
      from that(3) have "(a, b) \<in> ?R\<^sup>*" by (simp add: componente_eq_iff[OF ok])
      then have "(a, b) \<in> (Id_on ?D \<union> ?R)\<^sup>+"
      proof (induction rule: rtrancl_induct)
        case base
        from that(1) have "(a, a) \<in> Id_on ?D \<union> ?R" by (simp add: Id_on_iff)
        then show ?case by (rule r_into_trancl)
      next
        case (step y z)
        from step.hyps(2) have "(y, z) \<in> Id_on ?D \<union> ?R" by simp
        with step.IH show ?case by (rule trancl_into_trancl)
      qed
      moreover have "Id_on ?D \<union> ?R = Id_on ?D \<union> H' \<union> H'\<inverse>"
        unfolding H' PR[symmetric] by (simp only: Un_assoc)
      ultimately have "(a, b) \<in> clases uf'" unfolding c' by simp
      with that(1,2) show ?thesis by (simp add: cl)
    qed
    show ?thesis
      using fin
    proof (rule card_image_eq)
      fix a b assume "a \<in> ?D" "b \<in> ?D"
      then show "rep uf' a = rep uf' b \<longleftrightarrow> componente grafo a = componente grafo b"
        using A B by blast
    qed
  next
    assume one: "card (rep uf' ` ?D) = 1"
    have "card (componente grafo ` ?D) \<le> card (rep uf' ` ?D)"
      using fin by (rule card_image_le) (rule A)
    moreover have "card (componente grafo ` ?D) \<noteq> 0"
    proof -
      have "componente grafo ` ?D \<noteq> {}" using False by simp
      moreover have "finite (componente grafo ` ?D)" using fin by (rule finite_imageI)
      ultimately show ?thesis by (simp only: card_eq_0_iff) simp
    qed
    ultimately show ?thesis using one by arith
  qed
  with n' have "length mst + card (componentes grafo) = length (nodes grafo)"
    by (simp add: componentes_def)
  with r alg show ?thesis by simp
qed

lemma componentes_uno:
  assumes ok: "grafo_ok grafo" and one: "card (componentes grafo) = 1"
    and s: "s \<in> set (nodes grafo)"
  shows "componente grafo s = set (nodes grafo)"
proof
  show "componente grafo s \<subseteq> set (nodes grafo)"
    using ok s by (rule componente_nodes)
  from one obtain X where X: "componentes grafo = {X}"
    by (auto simp: card_1_singleton_iff)
  show "set (nodes grafo) \<subseteq> componente grafo s"
  proof
    fix u assume u: "u \<in> set (nodes grafo)"
    then have "componente grafo u \<in> componentes grafo" by (simp add: componentes_def)
    moreover from s have "componente grafo s \<in> componentes grafo" by (simp add: componentes_def)
    ultimately have "componente grafo u = componente grafo s" using X by simp
    with componente_refl[of u grafo] show "u \<in> componente grafo s" by simp
  qed
qed

lemma componentes_uno_conexo:
  assumes "grafo_ok grafo" "card (componentes grafo) = 1"
  shows "conexo grafo"
  unfolding conexo_def
proof (intro ballI)
  fix u v assume "u \<in> set (nodes grafo)" "v \<in> set (nodes grafo)"
  with componentes_uno[OF assms] have "v \<in> componente grafo u" by simp
  then show "(u, v) \<in> (adyacentes grafo)\<^sup>*" by (simp add: componente_def)
qed

lemma componente_cota:
  assumes ok: "grafo_ok grafo" and s: "s \<in> set (nodes grafo)"
  shows "card (componente grafo s) + card (componentes grafo) \<le> length (nodes grafo) + 1"
proof -
  let ?D = "set (nodes grafo)"
  let ?C = "componente grafo s"
  have CD: "?C \<subseteq> ?D" using ok s by (rule componente_nodes)
  have sub: "componentes grafo \<subseteq> insert ?C (componente grafo ` (?D - ?C))"
  proof
    fix X assume "X \<in> componentes grafo"
    then obtain u where u: "u \<in> ?D" and X: "X = componente grafo u"
      by (auto simp: componentes_def)
    show "X \<in> insert ?C (componente grafo ` (?D - ?C))"
    proof (cases "u \<in> ?C")
      case True
      then have "(s, u) \<in> (adyacentes grafo)\<^sup>*" by (simp add: componente_def)
      then have "componente grafo s = componente grafo u"
        by (simp add: componente_eq_iff[OF ok])
      with X show ?thesis by simp
    next
      case False
      with u X show ?thesis by blast
    qed
  qed
  have fin: "finite (?D - ?C)" by simp
  have "card (componentes grafo) \<le> card (insert ?C (componente grafo ` (?D - ?C)))"
    using sub fin by (intro card_mono) simp_all
  also have "\<dots> \<le> Suc (card (componente grafo ` (?D - ?C)))"
    using fin by (simp add: card_insert_if)
  also have "card (componente grafo ` (?D - ?C)) \<le> card (?D - ?C)"
    using fin by (rule Finite_Set.card_image_le)
  finally have 1: "card (componentes grafo) \<le> Suc (card (?D - ?C))" by simp
  have "card (?D - ?C) = card ?D - card ?C"
    using CD by (intro card_Diff_subset) (auto intro: finite_subset)
  moreover have "card ?C \<le> card ?D" using CD by (intro card_mono) simp_all
  moreover have "card ?D = length (nodes grafo)"
    using grafo_ok_distinct[OF ok] by (rule distinct_card)
  ultimately show ?thesis using 1 by simp
qed

subsection \<open>Claims about the number of edges\<close>

text \<open>
  C3 (as stated) does not hold for \<open>algoritmo_prim\<close>. The graph read from the rows
  \<open>A,B,1\<close> and \<open>C,D,1\<close> has 4 nodes and 2 connected components, so the claim asks for
  \<open>4 - 2 = 2\<close> edges; \<open>algoritmo_prim\<close> returns one edge, from the default start node
  and from the start node C alike: it only grows the tree of the start node.
\<close>

theorem mst_numero_de_aristas_contraejemplo:
  "grafo_ok (leer_grafo [(''A'', ''B'', 1), (''C'', ''D'', 1)]) \<and>
   length (nodes (leer_grafo [(''A'', ''B'', 1), (''C'', ''D'', 1)])) = 4 \<and>
   card (componentes (leer_grafo [(''A'', ''B'', 1), (''C'', ''D'', 1)])) = 2 \<and>
   algoritmo_prim (leer_grafo [(''A'', ''B'', 1), (''C'', ''D'', 1)]) None
     = Inr ([(''A'', ''B'', 1)], 1) \<and>
   algoritmo_prim (leer_grafo [(''A'', ''B'', 1), (''C'', ''D'', 1)]) (Some ''C'')
     = Inr ([(''C'', ''D'', 1)], 1)"
proof -
  let ?g = "leer_grafo [(''A'', ''B'', 1 :: real), (''C'', ''D'', 1)]"
  have ok: "grafo_ok ?g" by code_simp
  have n: "length (nodes ?g) = 4" by code_simp
  have k: "algoritmo_kruskal ?g = Some (Inr ([(''A'', ''B'', 1), (''C'', ''D'', 1)], 2))"
    by code_simp
  from kruskal_longitud[OF ok] k n have c: "card (componentes ?g) = 2" by simp
  have p1: "algoritmo_prim ?g None = Inr ([(''A'', ''B'', 1)], 1)" by code_simp
  have p2: "algoritmo_prim ?g (Some ''C'') = Inr ([(''C'', ''D'', 1)], 1)" by code_simp
  from ok n c p1 p2 show ?thesis by (intro conjI)
qed

text \<open>
  C3 (amended): for every weighted undirected graph with non-negative weights,
  \<open>algoritmo_kruskal\<close> returns a list of exactly V - k edges, where V is the number
  of nodes and k the number of connected components; \<open>algoritmo_prim\<close> from a start
  node of the graph returns one edge less than the number of nodes in the connected
  component of the start node, which is at most V - k edges; without a start node it
  starts from the first node, and on the empty graph it returns no edge. So on a
  connected graph with V nodes both return exactly V - 1 edges.
\<close>

theorem mst_numero_de_aristas:
  assumes "grafo_ok grafo"
  shows "(\<exists>mst peso. algoritmo_kruskal grafo = Some (Inr (mst, peso)) \<and>
            length mst + card (componentes grafo) = length (nodes grafo) \<and>
            (conexo grafo \<and> nodes grafo \<noteq> [] \<longrightarrow> length mst + 1 = length (nodes grafo))) \<and>
         (\<forall>s \<in> set (nodes grafo). \<exists>mst peso.
            algoritmo_prim grafo (Some s) = Inr (mst, peso) \<and>
            length mst + 1 = card (componente grafo s) \<and>
            length mst + card (componentes grafo) \<le> length (nodes grafo) \<and>
            (conexo grafo \<longrightarrow> length mst + 1 = length (nodes grafo))) \<and>
         (nodes grafo \<noteq> [] \<longrightarrow>
            algoritmo_prim grafo None = algoritmo_prim grafo (Some (hd (nodes grafo)))) \<and>
         (nodes grafo = [] \<longrightarrow> algoritmo_prim grafo None = Inr ([], 0))"
proof (intro conjI ballI impI)
  from kruskal_longitud[OF assms] obtain mst peso where
      k: "algoritmo_kruskal grafo = Some (Inr (mst, peso))" and
      n: "length mst + card (componentes grafo) = length (nodes grafo)"
    by (elim exE conjE)
  have "length mst + 1 = length (nodes grafo)" if "conexo grafo \<and> nodes grafo \<noteq> []"
    using conexo_componentes[OF assms] that n by simp
  with k n show "\<exists>mst peso. algoritmo_kruskal grafo = Some (Inr (mst, peso)) \<and>
            length mst + card (componentes grafo) = length (nodes grafo) \<and>
            (conexo grafo \<and> nodes grafo \<noteq> [] \<longrightarrow> length mst + 1 = length (nodes grafo))"
    by blast
next
  fix s assume s: "s \<in> set (nodes grafo)"
  from prim_longitud[OF assms s] obtain mst peso where
      p: "algoritmo_prim grafo (Some s) = Inr (mst, peso)" and
      n: "length mst + 1 = card (componente grafo s)"
    by (elim exE conjE)
  have "length mst + 1 = length (nodes grafo)" if "conexo grafo"
  proof -
    from conexo_componente[OF assms that s] n
    have "length mst + 1 = card (set (nodes grafo))" by simp
    also have "\<dots> = length (nodes grafo)"
      using grafo_ok_distinct[OF assms] by (rule distinct_card)
    finally show ?thesis .
  qed
  moreover have "length mst + card (componentes grafo) \<le> length (nodes grafo)"
    using componente_cota[OF assms s] n by simp
  ultimately show "\<exists>mst peso. algoritmo_prim grafo (Some s) = Inr (mst, peso) \<and>
            length mst + 1 = card (componente grafo s) \<and>
            length mst + card (componentes grafo) \<le> length (nodes grafo) \<and>
            (conexo grafo \<longrightarrow> length mst + 1 = length (nodes grafo))"
    using p n by blast
next
  assume "nodes grafo \<noteq> []"
  then show "algoritmo_prim grafo None = algoritmo_prim grafo (Some (hd (nodes grafo)))"
    by (simp add: algoritmo_prim_def)
next
  assume "nodes grafo = []"
  then show "algoritmo_prim grafo None = Inr ([], 0)"
    by (simp add: algoritmo_prim_def)
qed

theorem mst_numero_de_aristas_testigo:
  "grafo_ok (leer_grafo [(''A'', ''B'', 1), (''B'', ''C'', 2), (''A'', ''C'', 3)]) \<and>
   conexo (leer_grafo [(''A'', ''B'', 1), (''B'', ''C'', 2), (''A'', ''C'', 3)]) \<and>
   (\<exists>mst peso.
      algoritmo_kruskal (leer_grafo [(''A'', ''B'', 1), (''B'', ''C'', 2), (''A'', ''C'', 3)])
        = Some (Inr (mst, peso)) \<and>
      length mst + 1 = 3) \<and>
   (\<exists>mst peso.
      algoritmo_prim (leer_grafo [(''A'', ''B'', 1), (''B'', ''C'', 2), (''A'', ''C'', 3)]) (Some ''C'')
        = Inr (mst, peso) \<and>
      length mst + 1 = 3) \<and>
   algoritmo_prim (leer_grafo [(''A'', ''B'', 1), (''B'', ''C'', 2), (''A'', ''C'', 3)]) None
     = algoritmo_prim (leer_grafo [(''A'', ''B'', 1), (''B'', ''C'', 2), (''A'', ''C'', 3)]) (Some ''A'')"
proof -
  let ?g = "leer_grafo [(''A'', ''B'', 1 :: real), (''B'', ''C'', 2), (''A'', ''C'', 3)]"
  have ok: "grafo_ok ?g" by code_simp
  have ns: "nodes ?g = [''A'', ''B'', ''C'']" by code_simp
  have k: "algoritmo_kruskal ?g = Some (Inr ([(''A'', ''B'', 1), (''B'', ''C'', 2)], 3))"
    by code_simp
  from kruskal_longitud[OF ok] k ns have "card (componentes ?g) = 1" by simp
  with ok have cx: "conexo ?g" by (rule componentes_uno_conexo)
  note t = mst_numero_de_aristas[OF ok]
  from t cx ns have 1: "\<exists>mst peso. algoritmo_kruskal ?g = Some (Inr (mst, peso)) \<and> length mst + 1 = 3"
    by auto
  from t have "\<forall>s \<in> set (nodes ?g). \<exists>mst peso.
            algoritmo_prim ?g (Some s) = Inr (mst, peso) \<and>
            length mst + 1 = card (componente ?g s) \<and>
            length mst + card (componentes ?g) \<le> length (nodes ?g) \<and>
            (conexo ?g \<longrightarrow> length mst + 1 = length (nodes ?g))"
    by (elim conjE)
  then have "\<exists>mst peso.
            algoritmo_prim ?g (Some ''C'') = Inr (mst, peso) \<and>
            length mst + 1 = card (componente ?g ''C'') \<and>
            length mst + card (componentes ?g) \<le> length (nodes ?g) \<and>
            (conexo ?g \<longrightarrow> length mst + 1 = length (nodes ?g))"
    by (rule bspec) (simp add: ns)
  with cx ns have 2: "\<exists>mst peso. algoritmo_prim ?g (Some ''C'') = Inr (mst, peso) \<and> length mst + 1 = 3"
    by auto
  from t ns have 3: "algoritmo_prim ?g None = algoritmo_prim ?g (Some ''A'')"
    by simp
  from ok cx 1 2 3 show ?thesis by (intro conjI)
qed

end
